theory Spec2Isabelle
  imports Complex_Main "HOL-Library.Word" "HOL-Library.AList" "HOL-Library.Code_Target_Nat"
begin

unbundle bit_operations_syntax

section \<open>The BLE audio receiver of receive.py\<close>

text \<open>
  The development embeds the class \<open>XiaoAudioReceiver\<close> of \<open>src/receive.py\<close>: the packet
  checksum, the notification handler with its reorder buffer, the credit writes and the
  polling loop of \<open>download_file\<close>.

  Python integers are unbounded and never negative here, so sequence numbers and counters
  are \<open>nat\<close>; the checksum, computed with shifts and masks, is an \<open>int\<close>; a byte of a
  \<open>bytes\<close> object is an \<open>8 word\<close>. The dictionary \<open>packet_buffer\<close> is an association list: \<open>d[k] = v\<close> is \<open>AList.update\<close>,
  \<open>d.pop(k)\<close> and \<open>del d[k]\<close> are \<open>AList.delete\<close>, \<open>k in d\<close> is a lookup with
  \<open>map_of\<close>, \<open>len(d)\<close> is the length of the list, whose keys stay distinct
  (lemma \<open>foldl_perform_distinct\<close> below).
\<close>

type_synonym byte = "8 word"

subsection \<open>Console lines and receiver state\<close>

text \<open>
  What the program prints is kept as a list of events in the state. The throttled progress
  line of the handler and the banners and transfer statistics of \<open>download_file\<close> depend on
  the wall clock only and are left out.
\<close>

datatype event =
    PacketTooShort nat
  | EofReceived nat
  | PayloadLengthMismatch nat nat
  | CrcError nat int int
  | LargeGapDetected nat nat
  | SkippingToPacket nat nat
  | DroppedOldPacket nat
  | ErrorSendingCredits
  | TransferNearlyComplete
  | TransferStalled nat nat
  | AttemptingBuffered
  | SkippingGap nat nat
  | TimeoutNoData
  | DownloadError

text \<open>
  The fields of the object that the transfer uses. \<open>console\<close>, \<open>credit_writes\<close> (the values
  written to the credit characteristic, in order) and \<open>stop_notify_calls\<close> record the effects
  on the outside world; they are never read by the program.
\<close>

record receiver =
  file_size :: nat
  received_data :: "byte list"
  expected_seq :: nat
  total_packets :: nat
  credits_sent :: nat
  file_transfer_complete :: bool
  packet_buffer :: "(nat \<times> byte list) list"
  console :: "event list"
  credit_writes :: "nat list"
  stop_notify_calls :: nat

definition max_buffer_size :: nat where
  "max_buffer_size = 100"

definition print :: "event \<Rightarrow> receiver \<Rightarrow> receiver" where
  "print ev st = st\<lparr>console := console st @ [ev]\<rparr>"

text \<open>The object as \<open>__init__\<close> leaves it.\<close>

definition init_receiver :: receiver where
  "init_receiver = \<lparr>file_size = 0, received_data = [], expected_seq = 0, total_packets = 0,
     credits_sent = 0, file_transfer_complete = False, packet_buffer = [], console = [],
     credit_writes = [], stop_notify_calls = 0\<rparr>"

text \<open>The reset at the head of \<open>download_file\<close> (lines 264 to 271).\<close>

definition reset_state :: "receiver \<Rightarrow> receiver" where
  "reset_state st = st\<lparr>received_data := [], expected_seq := 0, total_packets := 0,
     credits_sent := 0, file_transfer_complete := False, packet_buffer := []\<rparr>"

subsection \<open>crc16_ccitt\<close>

text \<open>One round of the inner loop: test bit 15, shift left, reduce, mask to 16 bits.\<close>

definition crc_shift :: "int \<Rightarrow> int" where
  "crc_shift crc =
     (if crc AND 0x8000 \<noteq> 0 then (push_bit 1 crc XOR 0x1021) AND 0xFFFF
      else push_bit 1 crc AND 0xFFFF)"

definition crc_byte :: "int \<Rightarrow> byte \<Rightarrow> int" where
  "crc_byte crc b = (crc_shift ^^ 8) (crc XOR push_bit 8 (uint b))"

definition crc16_ccitt :: "byte list \<Rightarrow> int" where
  "crc16_ccitt data = foldl crc_byte 0xFFFF data"

text \<open>
  The checksum as the specification words it: a 16-bit register, initial value 0xFFFF, each
  byte entered at the high end, eight shifts to the left per byte, the polynomial 0x1021
  added whenever a one is shifted out (CRC-16/CCITT-FALSE).
\<close>

definition crc16_spec_shift :: "16 word \<Rightarrow> 16 word" where
  "crc16_spec_shift w = (if bit w 15 then push_bit 1 w XOR 0x1021 else push_bit 1 w)"

definition crc16_spec_byte :: "16 word \<Rightarrow> 8 word \<Rightarrow> 16 word" where
  "crc16_spec_byte w b = (crc16_spec_shift ^^ 8) (w XOR push_bit 8 (ucast b))"

definition crc16_spec :: "8 word list \<Rightarrow> 16 word" where
  "crc16_spec data = foldl crc16_spec_byte 0xFFFF data"

subsection \<open>send_credits\<close>

text \<open>
  The write to the credit characteristic succeeds or raises; \<open>wr\<close> is what the transport does.
  \<open>bytes([credits])\<close> raises for a value above 255, inside the same \<open>try\<close>. On any exception
  the counter is left alone and the error is printed.
\<close>

definition send_credits :: "receiver \<Rightarrow> bool \<Rightarrow> nat \<Rightarrow> receiver" where
  "send_credits st wr credits =
     (if wr \<and> credits < 256
      then st\<lparr>credit_writes := credit_writes st @ [credits],
              credits_sent := credits_sent st + credits\<rparr>
      else print ErrorSendingCredits st)"

subsection \<open>process_buffered_packets\<close>

text \<open>The \<open>while\<close> loop of lines 165 to 168; every round removes one entry of the buffer.\<close>

function process_buffered_loop :: "receiver \<Rightarrow> receiver" where
  "process_buffered_loop st =
     (case map_of (packet_buffer st) (expected_seq st) of
        None \<Rightarrow> st
      | Some payload \<Rightarrow>
          process_buffered_loop
            (st\<lparr>packet_buffer := AList.delete (expected_seq st) (packet_buffer st),
                received_data := received_data st @ payload,
                expected_seq := expected_seq st + 1\<rparr>))"
  by pat_completeness auto

termination process_buffered_loop
proof (relation "measure (\<lambda>st. length (packet_buffer st))")
  show "wf (measure (\<lambda>st. length (packet_buffer st)))" by simp
next
  fix st :: receiver and payload
  assume hit: "map_of (packet_buffer st) (expected_seq st) = Some payload"
  have shrink: "map_of xs k = Some v \<Longrightarrow> length (AList.delete k xs) < length xs"
    for xs :: "(nat \<times> byte list) list" and k v
  proof (induction xs)
    case Nil
    then show ?case by simp
  next
    case (Cons a xs)
    have le: "length (AList.delete k xs) \<le> length xs"
      by (simp add: AList.delete_eq)
    show ?case
    proof (cases "fst a = k")
      case True
      then show ?thesis using le by (cases a) (simp add: AList.delete_eq le_imp_less_Suc)
    next
      case False
      then show ?thesis using Cons by (cases a) (simp add: AList.delete_eq)
    qed
  qed
  show "(st\<lparr>packet_buffer := AList.delete (expected_seq st) (packet_buffer st),
             received_data := received_data st @ payload,
             expected_seq := expected_seq st + 1\<rparr>, st)
        \<in> measure (\<lambda>st. length (packet_buffer st))"
    using shrink [OF hit] by simp
qed

declare process_buffered_loop.simps [simp del]

text \<open>The eviction of lines 171 to 176: one \<open>del\<close> and one printed line for each dropped key.\<close>

definition drop_old :: "receiver \<Rightarrow> nat \<Rightarrow> receiver" where
  "drop_old st seq =
     print (DroppedOldPacket seq) (st\<lparr>packet_buffer := AList.delete seq (packet_buffer st)\<rparr>)"

definition process_buffered_packets :: "receiver \<Rightarrow> receiver" where
  "process_buffered_packets st0 =
     (let st = process_buffered_loop st0 in
      if length (packet_buffer st) > max_buffer_size then
        (let old_seqs = take (length (packet_buffer st) - max_buffer_size div 2)
                             (sort (map fst (packet_buffer st)))
         in foldl drop_old st old_seqs)
      else st)"

subsection \<open>notification_handler\<close>

text \<open>\<open>struct.unpack\<close> with a little-endian unsigned format, on a slice of the right length.\<close>

fun unpack_le :: "byte list \<Rightarrow> nat" where
  "unpack_le [] = 0"
| "unpack_le (b # bs) = unat b + 256 * unpack_le bs"

text \<open>
  Lines 229 to 243: a packet ahead of \<open>expected_seq\<close> is put into the buffer unless its
  sequence number is there already; a packet more than 50 ahead makes the handler skip to the
  lowest buffered sequence number.
\<close>

definition buffer_packet :: "receiver \<Rightarrow> nat \<Rightarrow> byte list \<Rightarrow> receiver" where
  "buffer_packet st seq payload =
     (if map_of (packet_buffer st) seq = None then
        (let st1 = st\<lparr>packet_buffer := AList.update seq payload (packet_buffer st)\<rparr> in
         if seq - expected_seq st1 > 50 then
           (let st2 = print (LargeGapDetected (expected_seq st1) seq) st1;
                available_seqs =
                  sort (filter (\<lambda>s. s \<ge> expected_seq st2) (map fst (packet_buffer st2)))
            in case available_seqs of
                 [] \<Rightarrow> st2
               | next_seq # _ \<Rightarrow>
                   process_buffered_packets
                     ((print (SkippingToPacket next_seq (next_seq - expected_seq st2)) st2)
                        \<lparr>expected_seq := next_seq\<rparr>))
         else st1)
      else st)"

text \<open>Lines 255 to 258: two credits whenever the packet counter is even.\<close>

definition grant_credits :: "receiver \<Rightarrow> bool \<Rightarrow> receiver" where
  "grant_credits st wr = (if total_packets st mod 2 = 0 then send_credits st wr 2 else st)"

text \<open>
  Lines 215 to 258: what the handler does with a packet that passed the length check.
  The \<open>return\<close> of line 220 leaves the handler before the credit grant.
\<close>

definition on_data_packet :: "receiver \<Rightarrow> bool \<Rightarrow> nat \<Rightarrow> byte list \<Rightarrow> receiver" where
  "on_data_packet st0 wr seq payload =
     (let st = st0\<lparr>total_packets := total_packets st0 + 1\<rparr> in
      if seq < expected_seq st then st
      else if seq = expected_seq st then
        grant_credits
          (process_buffered_packets
             (st\<lparr>received_data := received_data st @ payload,
                 expected_seq := expected_seq st + 1\<rparr>)) wr
      else grant_credits (buffer_packet st seq payload) wr)"

text \<open>
  The handler on a raw frame. \<open>wr\<close> is the outcome of the credit write, should the handler
  attempt one.
\<close>

definition notification_handler :: "receiver \<Rightarrow> bool \<Rightarrow> byte list \<Rightarrow> receiver" where
  "notification_handler st wr data =
     (if length data < 8 then print (PacketTooShort (length data)) st
      else
        (let seq = unpack_le (take 4 data);
             len = unpack_le (take 2 (drop 4 data));
             crc_received = int (unpack_le (take 2 (drop 6 data)));
             payload = take len (drop 8 data)
         in if len = 0 \<and> crc_received = 0 then
              (print (EofReceived seq) st)\<lparr>file_transfer_complete := True\<rparr>
            else if length payload \<noteq> len then
              print (PayloadLengthMismatch len (length payload)) st
            else
              (let crc_calculated = crc16_ccitt payload;
                   st1 = (if crc_received \<noteq> crc_calculated
                          then print (CrcError seq crc_calculated crc_received) st else st)
               in on_data_packet st1 wr seq payload)))"

subsection \<open>download_file\<close>

text \<open>
  The stall branch of lines 303 to 318, entered when the stall counter has passed 20 and the
  transfer is below 99 percent. \<open>min_buffered_seq - expected_seq\<close> is a Python difference and
  may be negative.
\<close>

definition stall_recovery :: "receiver \<Rightarrow> bool \<Rightarrow> receiver" where
  "stall_recovery st0 wr =
     (let st1 = print (TransferStalled (length (received_data st0)) (length (packet_buffer st0))) st0;
          st2 = send_credits st1 wr 32
      in if packet_buffer st2 \<noteq> [] then
           (let st3 = print AttemptingBuffered st2;
                min_buffered_seq = Min (set (map fst (packet_buffer st3)))
            in if int min_buffered_seq - int (expected_seq st3) \<le> 10 then
                 process_buffered_packets
                   ((print (SkippingGap (expected_seq st3) min_buffered_seq) st3)
                      \<lparr>expected_seq := min_buffered_seq\<rparr>)
               else st3)
         else st2)"

text \<open>
  The world as one round of the polling loop sees it: the frames whose handlers ran while the
  loop slept for half a second, each with the outcome of the credit write its handler may
  attempt; the outcome of the credit write of the stall branch; and the reading
  \<open>time.time() - start_time\<close> of the timeout check. Handlers run only while the loop sleeps.
  The clock is a real number; the percentage of line 298 is computed exactly, which agrees
  with the floating-point comparison for every size a 32-bit size field can declare.
\<close>

record tick =
  arrivals :: "(bool \<times> byte list) list"
  stall_write_ok :: bool
  elapsed :: real

definition deliver :: "receiver \<Rightarrow> (bool \<times> byte list) list \<Rightarrow> receiver" where
  "deliver st frames = foldl (\<lambda>s (wr, data). notification_handler s wr data) st frames"

text \<open>
  How the function is left: \<open>Complete\<close> when the loop condition fails or the end marker is
  seen, \<open>AcceptedIncomplete\<close> by the \<open>break\<close> of line 301, \<open>TimedOut\<close> by the \<open>return False\<close>
  of line 327, \<open>Aborted\<close> through the exception handler. The function returns \<open>True\<close> in the
  first two cases and \<open>False\<close> in the last two.
\<close>

datatype outcome = Complete | AcceptedIncomplete | TimedOut | Aborted


text \<open>
  The stall check of lines 293 to 321, on the locals \<open>last_received\<close> and \<open>stall_count\<close>:
  \<open>None\<close> is the \<open>break\<close> of line 301, otherwise the new locals and state.
\<close>

definition stall_check :: "tick \<Rightarrow> nat \<Rightarrow> nat \<Rightarrow> receiver \<Rightarrow> (nat \<times> nat \<times> receiver) option" where
  "stall_check t last_received stall_count st =
     (if length (received_data st) = last_received then
        (let stall_count = stall_count + 1 in
         if stall_count > 20 then
           (let progress = (if file_size st > 0
                            then real (length (received_data st)) / real (file_size st) * 100
                            else 0)
            in if progress \<ge> 99 then None
               else Some (last_received, 0, stall_recovery st (stall_write_ok t)))
         else Some (last_received, stall_count, st))
      else Some (length (received_data st), 0, st))"

text \<open>
  One round of the loop body, lines 287 to 327: either the loop goes on with new locals, or
  it is left.
\<close>

datatype flow = Next nat nat receiver | Leave outcome receiver

definition loop_body :: "tick \<Rightarrow> nat \<Rightarrow> nat \<Rightarrow> receiver \<Rightarrow> flow" where
  "loop_body t last_received stall_count st0 =
     (let st = deliver st0 (arrivals t) in
      if file_transfer_complete st then Leave Complete st
      else
        (case stall_check t last_received stall_count st of
           None \<Rightarrow> Leave AcceptedIncomplete (print TransferNearlyComplete st)
         | Some (last_received', stall_count', st') \<Rightarrow>
             if elapsed t > 60 \<and> length (received_data st') = 0
             then Leave TimedOut (print TimeoutNoData st')
             else Next last_received' stall_count' st'))"

text \<open>
  The \<open>while\<close> loop over the rounds the world provides. \<open>None\<close>: the rounds are used up and the
  loop is still running.
\<close>

fun download_loop :: "tick list \<Rightarrow> nat \<Rightarrow> nat \<Rightarrow> receiver \<Rightarrow> outcome option \<times> receiver" where
  "download_loop [] last_received stall_count st =
     (if length (received_data st) < file_size st \<and> \<not> file_transfer_complete st
      then (None, st) else (Some Complete, st))"
| "download_loop (t # ts) last_received stall_count st =
     (if length (received_data st) < file_size st \<and> \<not> file_transfer_complete st
      then (case loop_body t last_received stall_count st of
              Next last_received' stall_count' st' \<Rightarrow> download_loop ts last_received' stall_count' st'
            | Leave oc st' \<Rightarrow> (Some oc, st'))
      else (Some Complete, st))"

text \<open>
  The whole function. \<open>start_notify\<close> and \<open>stop_notify\<close> succeed or raise, as the world
  decides; an exception is caught by the handler of line 344. \<open>stop_notify\<close> is reached only
  after the loop is left by its condition or by a \<open>break\<close>.
\<close>

record world =
  subscribe_ok :: bool
  initial_write_ok :: bool
  ticks :: "tick list"
  unsubscribe_ok :: bool

definition download_file :: "world \<Rightarrow> receiver \<Rightarrow> outcome option \<times> receiver" where
  "download_file w st0 =
     (let st = reset_state st0 in
      if \<not> subscribe_ok w then (Some Aborted, print DownloadError st)
      else
        (let st1 = send_credits st (initial_write_ok w) 64 in
         case download_loop (ticks w) 0 0 st1 of
           (None, st2) \<Rightarrow> (None, st2)
         | (Some TimedOut, st2) \<Rightarrow> (Some TimedOut, st2)
         | (Some oc, st2) \<Rightarrow>
             (let st3 = st2\<lparr>stop_notify_calls := stop_notify_calls st2 + 1\<rparr> in
              if unsubscribe_ok w then (Some oc, st3)
              else (Some Aborted, print DownloadError st3))))"

text \<open>
  Rounds of the polling loop that each find \<open>bytes_received\<close> as it was, see no end marker
  and do not time out; and the receiver after the notifications of a list of rounds.
\<close>

fun unchanged_rounds :: "receiver \<Rightarrow> tick list \<Rightarrow> bool" where
  "unchanged_rounds st [] = True"
| "unchanged_rounds st (q # qs) =
     (let s = deliver st (arrivals q)
      in \<not> file_transfer_complete s
         \<and> length (received_data s) = length (received_data st)
         \<and> \<not> (elapsed q > 60 \<and> received_data s = [])
         \<and> unchanged_rounds s qs)"

definition after_rounds :: "receiver \<Rightarrow> tick list \<Rightarrow> receiver" where
  "after_rounds st qs = foldl (\<lambda>s q. deliver s (arrivals q)) st qs"

subsection \<open>What happens to a receiver during a session\<close>

text \<open>
  The two operations that touch the reorder buffer: a notification, and the recovery of the
  stall branch of the polling loop.
\<close>

datatype action = Notify bool "byte list" | StallRecover bool

fun perform :: "receiver \<Rightarrow> action \<Rightarrow> receiver" where
  "perform st (Notify wr data) = notification_handler st wr data"
| "perform st (StallRecover wr) = stall_recovery st wr"

subsection \<open>Frames as the device sends them\<close>

text \<open>
  The layout the handler parses, \<open>[seq32|len16|crc16|payload]\<close> with little-endian fields,
  written out for a sequence number, a checksum field and a payload. The receiver has no such
  function; it is used to state properties of packets and to build sample frames.
\<close>

fun pack_le :: "nat \<Rightarrow> nat \<Rightarrow> byte list" where
  "pack_le 0 x = []"
| "pack_le (Suc n) x = of_nat (x mod 256) # pack_le n (x div 256)"

definition data_frame :: "nat \<Rightarrow> nat \<Rightarrow> byte list \<Rightarrow> byte list" where
  "data_frame seq crc payload =
     pack_le 4 seq @ pack_le 2 (length payload) @ pack_le 2 crc @ payload"

subsection \<open>The state without the console\<close>

text \<open>Two receivers agree on everything the program reads when they differ in the console only.\<close>

definition without_console :: "receiver \<Rightarrow> receiver" where
  "without_console st = st\<lparr>console := []\<rparr>"

subsection \<open>What reordering is to deliver\<close>

text \<open>
  The first sequence number, counting from \<open>n\<close>, that is not among \<open>seqs\<close>; from 0 it is the
  end of the contiguous run of sequence numbers that have all arrived.
\<close>

function first_missing_from :: "nat list \<Rightarrow> nat \<Rightarrow> nat" where
  "first_missing_from seqs n = (if n \<in> set seqs then first_missing_from seqs (n + 1) else n)"
  by pat_completeness auto

termination first_missing_from
proof (relation "measure (\<lambda>(seqs, n). card {k \<in> set seqs. n \<le> k})")
  show "wf (measure (\<lambda>(seqs, n). card {k \<in> set seqs. n \<le> k}))" by simp
next
  fix seqs :: "nat list" and n
  assume n: "n \<in> set seqs"
  have "n \<in> {k \<in> set seqs. n \<le> k}" "n \<notin> {k \<in> set seqs. n + 1 \<le> k}"
    using n by simp_all
  moreover have "{k \<in> set seqs. n + 1 \<le> k} \<subseteq> {k \<in> set seqs. n \<le> k}"
    by auto
  ultimately have "{k \<in> set seqs. n + 1 \<le> k} \<subset> {k \<in> set seqs. n \<le> k}"
    by blast
  then have "card {k \<in> set seqs. n + 1 \<le> k} < card {k \<in> set seqs. n \<le> k}"
    by (intro psubset_card_mono) simp_all
  then show "((seqs, n + 1), (seqs, n)) \<in> measure (\<lambda>(seqs, n). card {k \<in> set seqs. n \<le> k})"
    by simp
qed

declare first_missing_from.simps [simp del]

definition first_missing :: "nat list \<Rightarrow> nat" where
  "first_missing seqs = first_missing_from seqs 0"

text \<open>
  The payloads of that run in ascending order of sequence number; of a sequence number that
  arrived more than once the first payload counts (\<open>map_of\<close> finds the first pair).
\<close>

definition in_order_prefix :: "(nat \<times> byte list) list \<Rightarrow> byte list" where
  "in_order_prefix pkts =
     concat (map (\<lambda>k. case map_of pkts k of Some payload \<Rightarrow> payload | None \<Rightarrow> [])
                 [0..<first_missing (map fst pkts)])"

text \<open>
  No packet arrives more than 50 ahead of the first sequence number missing at its arrival:
  the condition under which line 234 never skips.
\<close>

definition within_window :: "nat list \<Rightarrow> bool" where
  "within_window seqs =
     list_all (\<lambda>i. seqs ! i \<le> first_missing (take i seqs) + 50) [0..<length seqs]"

text \<open>
  The handler fed with the frames of a list of packets (sequence number, payload) in order
  of arrival, each with its correct checksum, the credit writes accepted.
\<close>

definition feed :: "receiver \<Rightarrow> (nat \<times> byte list) list \<Rightarrow> receiver" where
  "feed st pkts =
     deliver st (map (\<lambda>(seq, payload).
                        (True, data_frame seq (nat (crc16_ccitt payload)) payload)) pkts)"

text \<open>
  The receiver has assembled the arrivals \<open>A\<close>: everything below \<open>expected_seq\<close> has
  arrived and is in the output, in order; the buffer holds the rest.
\<close>

definition assembled :: "(nat \<rightharpoonup> byte list) \<Rightarrow> receiver \<Rightarrow> bool" where
  "assembled A st \<longleftrightarrow>
     (\<forall>k < expected_seq st. k \<in> dom A)
     \<and> received_data st
         = concat (map (\<lambda>k. case A k of Some payload \<Rightarrow> payload | None \<Rightarrow> [])
                       [0..<expected_seq st])
     \<and> map_of (packet_buffer st) = A |` {k. expected_seq st \<le> k}
     \<and> distinct (map fst (packet_buffer st))"

subsection \<open>Arrivals that fill the buffer\<close>

text \<open>
  152 packets with empty payloads. First 51 pairs: packet \<open>2 * i\<close>, one ahead of
  \<open>expected_seq\<close>, then packet \<open>200 + i\<close>, far ahead. Then the 50 packets 104 to 153.
\<close>

definition pairs :: "nat \<Rightarrow> (nat \<times> byte list) list" where
  "pairs n = concat (map (\<lambda>i. [(2 * i, []), (200 + i, [])]) [1..<Suc n])"

definition run_from :: "nat \<Rightarrow> nat \<Rightarrow> (nat \<times> byte list) list" where
  "run_from a m = map (\<lambda>k. (k, [])) [a..<a + m]"

definition overflow_arrivals :: "(nat \<times> byte list) list" where
  "overflow_arrivals = pairs 51 @ run_from 104 50"

text \<open>The buffer after \<open>n\<close> of the pairs: the far packets, in order of arrival.\<close>

definition far_keys :: "nat \<Rightarrow> (nat \<times> byte list) list" where
  "far_keys n = map (\<lambda>j. (200 + j, [])) [1..<Suc n]"

subsection \<open>Sample sessions\<close>

text \<open>
  Inputs for the examples below: a receiver that has read a file size, a round of the
  polling loop in which nothing arrives, and a world in which every transport call succeeds.
\<close>

definition receiver_for :: "nat \<Rightarrow> receiver" where
  "receiver_for n = init_receiver\<lparr>file_size := n\<rparr>"

definition silent_tick :: "real \<Rightarrow> tick" where
  "silent_tick secs = \<lparr>arrivals = [], stall_write_ok = True, elapsed = secs\<rparr>"

definition session :: "tick list \<Rightarrow> world" where
  "session ts = \<lparr>subscribe_ok = True, initial_write_ok = True, ticks = ts, unsubscribe_ok = True\<rparr>"



section \<open>Properties\<close>

subsection \<open>Frames the handler rejects, and the end marker\<close>

lemma print_fields [simp]:
  "file_size (print ev st) = file_size st"
  "received_data (print ev st) = received_data st"
  "expected_seq (print ev st) = expected_seq st"
  "total_packets (print ev st) = total_packets st"
  "credits_sent (print ev st) = credits_sent st"
  "file_transfer_complete (print ev st) = file_transfer_complete st"
  "packet_buffer (print ev st) = packet_buffer st"
  "console (print ev st) = console st @ [ev]"
  "credit_writes (print ev st) = credit_writes st"
  "stop_notify_calls (print ev st) = stop_notify_calls st"
  by (simp_all add: print_def)

text \<open>
  C10. A frame of at least 8 bytes whose length field and checksum field are both 0 is the
  end marker: the handler sets \<open>file_transfer_complete\<close>, prints one line and returns.
  Nothing is assumed about the bytes after the header, and no length or checksum test is
  made; the packet counter, the credits, the output, the buffer and \<open>expected_seq\<close> stay as
  they were.
\<close>

theorem end_marker_completes_transfer:
  assumes "8 \<le> length data"
    and "unpack_le (take 2 (drop 4 data)) = 0"
    and "unpack_le (take 2 (drop 6 data)) = 0"
  shows "notification_handler st wr data =
           (print (EofReceived (unpack_le (take 4 data))) st)\<lparr>file_transfer_complete := True\<rparr>
         \<and> file_transfer_complete (notification_handler st wr data)
         \<and> total_packets (notification_handler st wr data) = total_packets st
         \<and> credits_sent (notification_handler st wr data) = credits_sent st
         \<and> credit_writes (notification_handler st wr data) = credit_writes st
         \<and> received_data (notification_handler st wr data) = received_data st
         \<and> packet_buffer (notification_handler st wr data) = packet_buffer st
         \<and> expected_seq (notification_handler st wr data) = expected_seq st"
  using assms by (simp add: notification_handler_def Let_def)

theorem end_marker_completes_transfer_witness:
  "8 \<le> length [5, 0, 0, 0, 0, 0, 0, 0, 0x41, 0x42 :: byte]
   \<and> unpack_le (take 2 (drop 4 [5, 0, 0, 0, 0, 0, 0, 0, 0x41, 0x42 :: byte])) = 0
   \<and> unpack_le (take 2 (drop 6 [5, 0, 0, 0, 0, 0, 0, 0, 0x41, 0x42 :: byte])) = 0
   \<and> file_transfer_complete
        (notification_handler init_receiver True [5, 0, 0, 0, 0, 0, 0, 0, 0x41, 0x42])
   \<and> total_packets
        (notification_handler init_receiver True [5, 0, 0, 0, 0, 0, 0, 0, 0x41, 0x42]) = 0
   \<and> credits_sent
        (notification_handler init_receiver True [5, 0, 0, 0, 0, 0, 0, 0, 0x41, 0x42]) = 0"
proof -
  have h1: "8 \<le> length [5, 0, 0, 0, 0, 0, 0, 0, 0x41, 0x42 :: byte]" by simp
  have h2: "unpack_le (take 2 (drop 4 [5, 0, 0, 0, 0, 0, 0, 0, 0x41, 0x42 :: byte])) = 0"
    by simp
  have h3: "unpack_le (take 2 (drop 6 [5, 0, 0, 0, 0, 0, 0, 0, 0x41, 0x42 :: byte])) = 0"
    by simp
  show ?thesis
    using end_marker_completes_transfer [OF h1 h2 h3, of init_receiver True] h1 h2 h3
    by (simp add: init_receiver_def)
qed

text \<open>
  C7, as the code has it. A frame shorter than 8 bytes, and a frame with fewer bytes after the
  header than its length field declares, is discarded: the handler prints one line and
  changes nothing else. (A frame with more bytes after the header than declared is not
  rejected; see \<open>overlong_frame_accepted\<close>.)
\<close>

theorem short_frames_discarded:
  assumes "length data < 8 \<or> length (drop 8 data) < unpack_le (take 2 (drop 4 data))"
  shows "notification_handler st wr data =
           print (if length data < 8 then PacketTooShort (length data)
                  else PayloadLengthMismatch (unpack_le (take 2 (drop 4 data))) (length data - 8)) st
         \<and> received_data (notification_handler st wr data) = received_data st
         \<and> packet_buffer (notification_handler st wr data) = packet_buffer st
         \<and> expected_seq (notification_handler st wr data) = expected_seq st
         \<and> total_packets (notification_handler st wr data) = total_packets st
         \<and> credits_sent (notification_handler st wr data) = credits_sent st
         \<and> credit_writes (notification_handler st wr data) = credit_writes st
         \<and> file_transfer_complete (notification_handler st wr data) = file_transfer_complete st"
proof (cases "length data < 8")
  case True
  then show ?thesis by (simp add: notification_handler_def)
next
  case False
  with assms have short: "length data - 8 < unpack_le (take 2 (drop 4 data))" by simp
  then have "min (length data - 8) (unpack_le (take 2 (drop 4 data))) = length data - 8"
    by simp
  with False short show ?thesis
    by (simp add: notification_handler_def Let_def)
qed

theorem short_frames_discarded_witness:
  "(length [0, 0, 0, 0, 3, 0, 0x12, 0x34, 0x41 :: byte] < 8
      \<or> length (drop 8 [0, 0, 0, 0, 3, 0, 0x12, 0x34, 0x41 :: byte])
          < unpack_le (take 2 (drop 4 [0, 0, 0, 0, 3, 0, 0x12, 0x34, 0x41 :: byte])))
   \<and> notification_handler init_receiver True [0, 0, 0, 0, 3, 0, 0x12, 0x34, 0x41]
       = print (PayloadLengthMismatch 3 1) init_receiver"
proof -
  have h: "length [0, 0, 0, 0, 3, 0, 0x12, 0x34, 0x41 :: byte] < 8
      \<or> length (drop 8 [0, 0, 0, 0, 3, 0, 0x12, 0x34, 0x41 :: byte])
          < unpack_le (take 2 (drop 4 [0, 0, 0, 0, 3, 0, 0x12, 0x34, 0x41 :: byte]))"
    by simp
  show ?thesis
    using short_frames_discarded [OF h, of init_receiver True] h by simp
qed

text \<open>
  C7 as stated fails: this frame declares one payload byte and carries two. It is taken as a
  data packet with the first byte as payload; the packet counter and the output change.
\<close>

theorem overlong_frame_accepted:
  "unpack_le (take 2 (drop 4 [0, 0, 0, 0, 1, 0, 0x12, 0x34, 0x41, 0x42 :: byte]))
     \<noteq> length (drop 8 [0, 0, 0, 0, 1, 0, 0x12, 0x34, 0x41, 0x42 :: byte])
   \<and> received_data
        (notification_handler init_receiver True [0, 0, 0, 0, 1, 0, 0x12, 0x34, 0x41, 0x42])
       = [0x41]
   \<and> received_data
        (notification_handler init_receiver True [0, 0, 0, 0, 1, 0, 0x12, 0x34, 0x41, 0x42])
       \<noteq> received_data init_receiver
   \<and> total_packets
        (notification_handler init_receiver True [0, 0, 0, 0, 1, 0, 0x12, 0x34, 0x41, 0x42])
       \<noteq> total_packets init_receiver
   \<and> expected_seq
        (notification_handler init_receiver True [0, 0, 0, 0, 1, 0, 0x12, 0x34, 0x41, 0x42])
       \<noteq> expected_seq init_receiver"
  by code_simp

subsection \<open>Which fields each operation leaves alone\<close>

lemma send_credits_fields [simp]:
  "file_size (send_credits st wr c) = file_size st"
  "received_data (send_credits st wr c) = received_data st"
  "expected_seq (send_credits st wr c) = expected_seq st"
  "total_packets (send_credits st wr c) = total_packets st"
  "file_transfer_complete (send_credits st wr c) = file_transfer_complete st"
  "packet_buffer (send_credits st wr c) = packet_buffer st"
  "stop_notify_calls (send_credits st wr c) = stop_notify_calls st"
  by (simp_all add: send_credits_def)

lemma send_credits_sent:
  "credits_sent (send_credits st wr c) = credits_sent st + (if wr \<and> c < 256 then c else 0)"
  by (simp add: send_credits_def)

lemma process_buffered_loop_fields [simp]:
  "file_size (process_buffered_loop st) = file_size st
   \<and> total_packets (process_buffered_loop st) = total_packets st
   \<and> credits_sent (process_buffered_loop st) = credits_sent st
   \<and> file_transfer_complete (process_buffered_loop st) = file_transfer_complete st
   \<and> console (process_buffered_loop st) = console st
   \<and> credit_writes (process_buffered_loop st) = credit_writes st
   \<and> stop_notify_calls (process_buffered_loop st) = stop_notify_calls st"
proof (induction st rule: process_buffered_loop.induct)
  case (1 st)
  show ?case
  proof (cases "map_of (packet_buffer st) (expected_seq st)")
    case None
    then show ?thesis by (simp add: process_buffered_loop.simps [of st])
  next
    case (Some payload)
    with "1" show ?thesis by (simp add: process_buffered_loop.simps [of st])
  qed
qed

subsection \<open>The buffer holds only sequence numbers ahead of expected_seq\<close>

lemma fst_set_delete: "fst ` set (AList.delete k xs) = fst ` set xs - {k}"
  by (induction xs) (auto simp: AList.delete_eq)

lemma map_of_None_iff: "map_of xs k = None \<longleftrightarrow> k \<notin> fst ` set xs"
  by (simp add: map_of_eq_None_iff)

lemma process_buffered_loop_keys:
  assumes "\<forall>k \<in> fst ` set (packet_buffer st). expected_seq st \<le> k"
  shows "(\<forall>k \<in> fst ` set (packet_buffer (process_buffered_loop st)).
            expected_seq (process_buffered_loop st) < k)
         \<and> fst ` set (packet_buffer (process_buffered_loop st)) \<subseteq> fst ` set (packet_buffer st)
         \<and> expected_seq st \<le> expected_seq (process_buffered_loop st)"
  using assms
proof (induction st rule: process_buffered_loop.induct)
  case (1 st)
  show ?case
  proof (cases "map_of (packet_buffer st) (expected_seq st)")
    case None
    then have "expected_seq st \<notin> fst ` set (packet_buffer st)"
      by (simp add: map_of_None_iff)
    with "1.prems" have "\<forall>k \<in> fst ` set (packet_buffer st). expected_seq st < k"
      by (metis le_neq_implies_less)
    with None show ?thesis by (simp add: process_buffered_loop.simps [of st])
  next
    case (Some payload)
    let ?st' = "st\<lparr>packet_buffer := AList.delete (expected_seq st) (packet_buffer st),
                    received_data := received_data st @ payload,
                    expected_seq := expected_seq st + 1\<rparr>"
    have pre: "\<forall>k \<in> fst ` set (packet_buffer ?st'). expected_seq ?st' \<le> k"
      using "1.prems" by (auto simp: fst_set_delete)
    have eq: "process_buffered_loop st = process_buffered_loop ?st'"
      using Some by (simp add: process_buffered_loop.simps [of st])
    from "1.IH" [OF Some pre] show ?thesis
      unfolding eq by (auto simp: fst_set_delete)
  qed
qed

lemma drop_old_fields [simp]:
  "file_size (drop_old st k) = file_size st"
  "received_data (drop_old st k) = received_data st"
  "expected_seq (drop_old st k) = expected_seq st"
  "total_packets (drop_old st k) = total_packets st"
  "credits_sent (drop_old st k) = credits_sent st"
  "file_transfer_complete (drop_old st k) = file_transfer_complete st"
  "packet_buffer (drop_old st k) = AList.delete k (packet_buffer st)"
  "credit_writes (drop_old st k) = credit_writes st"
  "stop_notify_calls (drop_old st k) = stop_notify_calls st"
  by (simp_all add: drop_old_def)

lemma foldl_drop_old_fields [simp]:
  "file_size (foldl drop_old st ks) = file_size st
   \<and> received_data (foldl drop_old st ks) = received_data st
   \<and> expected_seq (foldl drop_old st ks) = expected_seq st
   \<and> total_packets (foldl drop_old st ks) = total_packets st
   \<and> credits_sent (foldl drop_old st ks) = credits_sent st
   \<and> file_transfer_complete (foldl drop_old st ks) = file_transfer_complete st
   \<and> credit_writes (foldl drop_old st ks) = credit_writes st
   \<and> stop_notify_calls (foldl drop_old st ks) = stop_notify_calls st"
  by (induction ks arbitrary: st) simp_all

lemma foldl_drop_old_keys:
  "fst ` set (packet_buffer (foldl drop_old st ks)) = fst ` set (packet_buffer st) - set ks"
  by (induction ks arbitrary: st) (auto simp: fst_set_delete)

lemma process_buffered_packets_fields [simp]:
  "file_size (process_buffered_packets st) = file_size st
   \<and> total_packets (process_buffered_packets st) = total_packets st
   \<and> credits_sent (process_buffered_packets st) = credits_sent st
   \<and> file_transfer_complete (process_buffered_packets st) = file_transfer_complete st
   \<and> credit_writes (process_buffered_packets st) = credit_writes st
   \<and> stop_notify_calls (process_buffered_packets st) = stop_notify_calls st"
  by (simp add: process_buffered_packets_def Let_def)

lemma process_buffered_packets_keys:
  assumes "\<forall>k \<in> fst ` set (packet_buffer st). expected_seq st \<le> k"
  shows "(\<forall>k \<in> fst ` set (packet_buffer (process_buffered_packets st)).
            expected_seq (process_buffered_packets st) < k)
         \<and> expected_seq st \<le> expected_seq (process_buffered_packets st)"
proof -
  let ?l = "process_buffered_loop st"
  note L = process_buffered_loop_keys [OF assms]
  have sub: "fst ` set (packet_buffer (process_buffered_packets st))
               \<subseteq> fst ` set (packet_buffer ?l)"
    by (auto simp: process_buffered_packets_def Let_def foldl_drop_old_keys)
  have e: "expected_seq (process_buffered_packets st) = expected_seq ?l"
    by (simp add: process_buffered_packets_def Let_def)
  from L sub show ?thesis unfolding e by blast
qed

lemma sort_head_least:
  assumes "sort xs = a # as"
  shows "\<forall>x \<in> set xs. a \<le> (x::nat)"
proof -
  have "sorted (a # as)" using assms by (metis sorted_sort)
  moreover have "set xs = set (a # as)" using assms by (metis set_sort)
  ultimately show ?thesis by auto
qed

lemma grant_credits_fields [simp]:
  "file_size (grant_credits st wr) = file_size st"
  "received_data (grant_credits st wr) = received_data st"
  "expected_seq (grant_credits st wr) = expected_seq st"
  "total_packets (grant_credits st wr) = total_packets st"
  "file_transfer_complete (grant_credits st wr) = file_transfer_complete st"
  "packet_buffer (grant_credits st wr) = packet_buffer st"
  "stop_notify_calls (grant_credits st wr) = stop_notify_calls st"
  by (simp_all add: grant_credits_def)

lemma buffer_packet_keys:
  assumes "\<forall>k \<in> fst ` set (packet_buffer st). expected_seq st < k"
    and "expected_seq st < seq"
  shows "\<forall>k \<in> fst ` set (packet_buffer (buffer_packet st seq payload)).
            expected_seq (buffer_packet st seq payload) < k"
proof -
  let ?buf = "AList.update seq payload (packet_buffer st)"
  have keys: "\<forall>k \<in> fst ` set ?buf. expected_seq st < k"
    using assms by (simp add: dom_update)
  consider (known) y where "map_of (packet_buffer st) seq = Some y"
    | (near) "map_of (packet_buffer st) seq = None" "\<not> seq - expected_seq st > 50"
    | (far) "map_of (packet_buffer st) seq = None" "seq - expected_seq st > 50"
    by (cases "map_of (packet_buffer st) seq") auto
  then show ?thesis
  proof cases
    case known
    with assms show ?thesis by (simp add: buffer_packet_def)
  next
    case near
    with keys show ?thesis by (simp add: buffer_packet_def Let_def)
  next
    case far
    have all: "filter (\<lambda>s. expected_seq st \<le> s) (map fst ?buf) = map fst ?buf"
    proof (rule filter_True, rule ballI)
      fix x assume "x \<in> set (map fst ?buf)"
      then have "x \<in> fst ` set ?buf" by simp
      with keys have "expected_seq st < x" by blast
      then show "expected_seq st \<le> x" by simp
    qed
    have "map fst ?buf \<noteq> []" by (cases "packet_buffer st") auto
    then have "sort (map fst ?buf) \<noteq> []"
      by (metis length_sort length_0_conv)
    then obtain m ms where srt: "sort (map fst ?buf) = m # ms"
      by (cases "sort (map fst ?buf)") auto
    let ?s2 = "(print (SkippingToPacket m (m - expected_seq st))
                 (print (LargeGapDetected (expected_seq st) seq)
                    (st\<lparr>packet_buffer := ?buf\<rparr>)))\<lparr>expected_seq := m\<rparr>"
    have "\<forall>k \<in> fst ` set (packet_buffer ?s2). expected_seq ?s2 \<le> k"
      using sort_head_least [OF srt] by simp
    from process_buffered_packets_keys [OF this] far srt all show ?thesis
      by (simp add: buffer_packet_def Let_def)
  qed
qed

lemma on_data_packet_keys:
  assumes "\<forall>k \<in> fst ` set (packet_buffer st). expected_seq st < k"
  shows "\<forall>k \<in> fst ` set (packet_buffer (on_data_packet st wr seq payload)).
            expected_seq (on_data_packet st wr seq payload) < k"
proof -
  let ?st = "st\<lparr>total_packets := total_packets st + 1\<rparr>"
  consider (stale) "seq < expected_seq st" | (inorder) "seq = expected_seq st"
    | (ahead) "expected_seq st < seq"
    by linarith
  then show ?thesis
  proof cases
    case stale
    with assms show ?thesis by (simp add: on_data_packet_def)
  next
    case inorder
    let ?s1 = "?st\<lparr>received_data := received_data ?st @ payload,
                      expected_seq := expected_seq ?st + 1\<rparr>"
    have "\<forall>k \<in> fst ` set (packet_buffer ?s1). expected_seq ?s1 \<le> k"
      using assms by auto
    from process_buffered_packets_keys [OF this] inorder show ?thesis
      by (simp add: on_data_packet_def Let_def)
  next
    case ahead
    have "\<forall>k \<in> fst ` set (packet_buffer (buffer_packet ?st seq payload)).
            expected_seq (buffer_packet ?st seq payload) < k"
      using assms ahead by (intro buffer_packet_keys) simp_all
    with ahead show ?thesis by (simp add: on_data_packet_def Let_def)
  qed
qed

lemma notification_handler_keys:
  assumes "\<forall>k \<in> fst ` set (packet_buffer st). expected_seq st < k"
  shows "\<forall>k \<in> fst ` set (packet_buffer (notification_handler st wr data)).
            expected_seq (notification_handler st wr data) < k"
proof -
  have "\<forall>k \<in> fst ` set (packet_buffer (on_data_packet (print ev st) wr s p)).
            expected_seq (on_data_packet (print ev st) wr s p) < k" for ev s p
    using assms by (intro on_data_packet_keys) simp
  with on_data_packet_keys [OF assms] assms show ?thesis
    by (simp add: notification_handler_def Let_def)
qed

lemma stall_recovery_keys:
  assumes "\<forall>k \<in> fst ` set (packet_buffer st). expected_seq st < k"
  shows "\<forall>k \<in> fst ` set (packet_buffer (stall_recovery st wr)).
            expected_seq (stall_recovery st wr) < k"
proof -
  let ?s2 = "send_credits (print (TransferStalled (length (received_data st))
                                   (length (packet_buffer st))) st) wr 32"
  let ?m = "Min (set (map fst (packet_buffer st)))"
  let ?s4 = "(print (SkippingGap (expected_seq st) ?m) (print AttemptingBuffered ?s2))
               \<lparr>expected_seq := ?m\<rparr>"
  have "\<forall>k \<in> fst ` set (packet_buffer ?s4). expected_seq ?s4 \<le> k"
    by simp
  from process_buffered_packets_keys [OF this] assms show ?thesis
    by (simp add: stall_recovery_def Let_def)
qed

lemma perform_keys:
  assumes "\<forall>k \<in> fst ` set (packet_buffer st). expected_seq st < k"
  shows "\<forall>k \<in> fst ` set (packet_buffer (perform st a)). expected_seq (perform st a) < k"
  using assms by (cases a) (simp_all add: notification_handler_keys stall_recovery_keys)

lemma foldl_perform_keys:
  assumes "\<forall>k \<in> fst ` set (packet_buffer st). expected_seq st < k"
  shows "\<forall>k \<in> fst ` set (packet_buffer (foldl perform st acts)).
           expected_seq (foldl perform st acts) < k"
  using assms
proof (induction acts arbitrary: st)
  case Nil
  then show ?case by simp
next
  case (Cons a acts)
  from Cons.IH [OF perform_keys [OF Cons.prems]] show ?case by simp
qed

lemma stale_frame_ignored:
  assumes "unpack_le (take 4 data) < expected_seq st"
  shows "packet_buffer (notification_handler st wr data) = packet_buffer st
         \<and> received_data (notification_handler st wr data) = received_data st
         \<and> expected_seq (notification_handler st wr data) = expected_seq st"
  using assms by (simp add: notification_handler_def on_data_packet_def Let_def)

text \<open>
  C9. From a reset receiver, after any sequence of notifications and stall recoveries, no key
  of the reorder buffer is below \<open>expected_seq\<close> (the proof shows that every key is above
  it). And a frame whose sequence field is below \<open>expected_seq\<close> leaves the buffer, the
  output and \<open>expected_seq\<close> as they were.
\<close>

theorem buffer_holds_no_stale_entry:
  "(\<forall>k \<in> fst ` set (packet_buffer (foldl perform (reset_state st0) acts)).
       expected_seq (foldl perform (reset_state st0) acts) \<le> k)
   \<and> (unpack_le (take 4 data) < expected_seq st \<longrightarrow>
        packet_buffer (notification_handler st wr data) = packet_buffer st
        \<and> received_data (notification_handler st wr data) = received_data st
        \<and> expected_seq (notification_handler st wr data) = expected_seq st)"
proof -
  have "\<forall>k \<in> fst ` set (packet_buffer (reset_state st0)). expected_seq (reset_state st0) < k"
    by (simp add: reset_state_def)
  from foldl_perform_keys [OF this, of acts]
  have "\<forall>k \<in> fst ` set (packet_buffer (foldl perform (reset_state st0) acts)).
       expected_seq (foldl perform (reset_state st0) acts) \<le> k"
    by (meson less_imp_le_nat)
  with stale_frame_ignored [of data st wr] show ?thesis by blast
qed

theorem buffer_holds_no_stale_entry_witness:
  "packet_buffer (foldl perform (reset_state init_receiver)
       [StallRecover True, Notify True (data_frame 3 7 [0x43]), Notify True (data_frame 0 7 [0x40])])
     \<noteq> []
   \<and> list_all (\<lambda>k. expected_seq (foldl perform (reset_state init_receiver)
       [StallRecover True, Notify True (data_frame 3 7 [0x43]), Notify True (data_frame 0 7 [0x40])]) \<le> k)
       (map fst (packet_buffer (foldl perform (reset_state init_receiver)
       [StallRecover True, Notify True (data_frame 3 7 [0x43]), Notify True (data_frame 0 7 [0x40])])))
   \<and> unpack_le (take 4 (data_frame 0 7 [0x41]))
       < expected_seq (foldl perform (reset_state init_receiver)
       [StallRecover True, Notify True (data_frame 3 7 [0x43]), Notify True (data_frame 0 7 [0x40])])
   \<and> received_data (notification_handler (foldl perform (reset_state init_receiver)
       [StallRecover True, Notify True (data_frame 3 7 [0x43]), Notify True (data_frame 0 7 [0x40])])
         True (data_frame 0 7 [0x41])) = [0x40]"
proof -
  let ?S = "foldl perform (reset_state init_receiver)
       [StallRecover True, Notify True (data_frame 3 7 [0x43]), Notify True (data_frame 0 7 [0x40])]"
  have ne: "packet_buffer ?S \<noteq> []" by code_simp
  have h: "unpack_le (take 4 (data_frame 0 7 [0x41])) < expected_seq ?S" by code_simp
  have r: "received_data ?S = [0x40]" by code_simp
  from buffer_holds_no_stale_entry [of init_receiver
       "[StallRecover True, Notify True (data_frame 3 7 [0x43]), Notify True (data_frame 0 7 [0x40])]"
       "data_frame 0 7 [0x41]" ?S True] ne h r
  show ?thesis by (simp add: list_all_iff)
qed

subsection \<open>The console does not steer the program\<close>

lemma without_console_fields [simp]:
  "file_size (without_console st) = file_size st"
  "received_data (without_console st) = received_data st"
  "expected_seq (without_console st) = expected_seq st"
  "total_packets (without_console st) = total_packets st"
  "credits_sent (without_console st) = credits_sent st"
  "file_transfer_complete (without_console st) = file_transfer_complete st"
  "packet_buffer (without_console st) = packet_buffer st"
  "credit_writes (without_console st) = credit_writes st"
  "stop_notify_calls (without_console st) = stop_notify_calls st"
  "console (without_console st) = []"
  by (simp_all add: without_console_def)

lemma without_console_print [simp]: "without_console (print ev st) = without_console st"
  by (simp add: without_console_def print_def)

lemma without_console_eqD:
  assumes "without_console a = without_console b"
  shows "file_size a = file_size b" "received_data a = received_data b"
    "expected_seq a = expected_seq b" "total_packets a = total_packets b"
    "credits_sent a = credits_sent b" "file_transfer_complete a = file_transfer_complete b"
    "packet_buffer a = packet_buffer b" "credit_writes a = credit_writes b"
    "stop_notify_calls a = stop_notify_calls b"
  using arg_cong [OF assms, of file_size] arg_cong [OF assms, of received_data]
    arg_cong [OF assms, of expected_seq] arg_cong [OF assms, of total_packets]
    arg_cong [OF assms, of credits_sent] arg_cong [OF assms, of file_transfer_complete]
    arg_cong [OF assms, of packet_buffer] arg_cong [OF assms, of credit_writes]
    arg_cong [OF assms, of stop_notify_calls]
  by simp_all

lemma without_console_eqI:
  assumes "file_size a = file_size b" "received_data a = received_data b"
    "expected_seq a = expected_seq b" "total_packets a = total_packets b"
    "credits_sent a = credits_sent b" "file_transfer_complete a = file_transfer_complete b"
    "packet_buffer a = packet_buffer b" "credit_writes a = credit_writes b"
    "stop_notify_calls a = stop_notify_calls b"
  shows "without_console a = without_console b"
  using assms by (simp add: without_console_def)

lemma send_credits_cong:
  assumes "without_console a = without_console b"
  shows "without_console (send_credits a wr c) = without_console (send_credits b wr c)"
  using without_console_eqD [OF assms]
  by (intro without_console_eqI) (simp_all add: send_credits_def)


lemma process_buffered_loop_cong:
  assumes "without_console a = without_console b"
  shows "without_console (process_buffered_loop a) = without_console (process_buffered_loop b)"
  using assms
proof (induction a arbitrary: b rule: process_buffered_loop.induct)
  case (1 st)
  note eq = without_console_eqD [OF "1.prems"]
  show ?case
  proof (cases "map_of (packet_buffer st) (expected_seq st)")
    case None
    with eq "1.prems" show ?thesis
      by (simp add: process_buffered_loop.simps [of st] process_buffered_loop.simps [of b])
  next
    case (Some payload)
    let ?st' = "st\<lparr>packet_buffer := AList.delete (expected_seq st) (packet_buffer st),
                    received_data := received_data st @ payload,
                    expected_seq := expected_seq st + 1\<rparr>"
    let ?b' = "b\<lparr>packet_buffer := AList.delete (expected_seq b) (packet_buffer b),
                    received_data := received_data b @ payload,
                    expected_seq := expected_seq b + 1\<rparr>"
    have "without_console ?st' = without_console ?b'"
      using eq by (intro without_console_eqI) simp_all
    from "1.IH" [OF Some this] Some eq show ?thesis
      by (simp add: process_buffered_loop.simps [of st] process_buffered_loop.simps [of b])
  qed
qed

lemma foldl_drop_old_cong:
  assumes "without_console a = without_console b"
  shows "without_console (foldl drop_old a ks) = without_console (foldl drop_old b ks)"
  using assms
proof (induction ks arbitrary: a b)
  case Nil
  then show ?case by simp
next
  case (Cons k ks)
  have "without_console (drop_old a k) = without_console (drop_old b k)"
    using without_console_eqD [OF Cons.prems] by (intro without_console_eqI) simp_all
  from Cons.IH [OF this] show ?case by simp
qed

lemma process_buffered_packets_cong:
  assumes "without_console a = without_console b"
  shows "without_console (process_buffered_packets a)
           = without_console (process_buffered_packets b)"
proof -
  note l = process_buffered_loop_cong [OF assms]
  from without_console_eqD(7) [OF l] l foldl_drop_old_cong [OF l] show ?thesis
    by (simp add: process_buffered_packets_def Let_def)
qed









lemma crc16_ccitt_empty: "crc16_ccitt [] = 0xFFFF"
  by (simp add: crc16_ccitt_def)



subsection \<open>crc16_ccitt is CRC-16/CCITT-FALSE\<close>

lemma mask16: "(0xFFFF :: int) = mask 16"
  by (simp add: mask_eq_exp_minus_1)

lemma and_ffff: "y AND 0xFFFF = uint (word_of_int y :: 16 word)" for y :: int
  by (simp add: mask16 uint_word_of_int_eq take_bit_eq_mask)

lemma top_bit: "uint w AND 0x8000 \<noteq> 0 \<longleftrightarrow> bit w 15" for w :: "16 word"
proof -
  have "(0x8000 :: int) = 2 ^ 15" by simp
  then have "uint w AND 0x8000 = 0 \<longleftrightarrow> \<not> bit (uint w) 15"
    by (simp only: and_exp_eq_0_iff_not_bit)
  then show ?thesis by (simp add: bit_uint_iff)
qed

lemma crc_shift_uint: "crc_shift (uint w) = uint (crc16_spec_shift w)" for w :: "16 word"
proof -
  have a: "word_of_int (push_bit 1 (uint w) XOR 0x1021) = (push_bit 1 w XOR 0x1021 :: 16 word)"
    by (simp add: of_int_xor_eq of_int_push_bit)
  have b: "word_of_int (push_bit 1 (uint w)) = (push_bit 1 w :: 16 word)"
    by (simp add: of_int_push_bit)
  show ?thesis
    unfolding crc_shift_def crc16_spec_shift_def and_ffff top_bit a b by simp
qed

lemma crc_byte_uint: "crc_byte (uint w) b = uint (crc16_spec_byte w b)" for w :: "16 word"
proof -
  have pow: "(crc_shift ^^ n) (uint v) = uint ((crc16_spec_shift ^^ n) v)" for n and v :: "16 word"
    by (induction n) (simp_all add: crc_shift_uint)
  have "uint w XOR push_bit 8 (uint b) = uint (w XOR push_bit 8 (ucast b))"
    by (rule bit_eqI) (auto simp: bit_simps dest: bit_imp_le_length)
  then show ?thesis by (simp add: crc_byte_def crc16_spec_byte_def pow)
qed

lemma crc16_ccitt_refines_spec: "crc16_ccitt data = uint (crc16_spec data)"
proof -
  have "foldl crc_byte (uint w) data = uint (foldl crc16_spec_byte w data)" for w :: "16 word"
    by (induction data arbitrary: w) (simp_all add: crc_byte_uint)
  from this [of "0xFFFF"] show ?thesis by (simp add: crc16_ccitt_def crc16_spec_def)
qed

text \<open>The check value of CRC-16/CCITT-FALSE, the checksum of the ASCII digits 1 to 9.\<close>

lemma crc16_ccitt_check_value:
  "crc16_ccitt [0x31, 0x32, 0x33, 0x34, 0x35, 0x36, 0x37, 0x38, 0x39] = 0x29B1"
  by code_simp

subsection \<open>Credits\<close>

lemma grant_credits_sent:
  "credits_sent (grant_credits st wr)
     = credits_sent st + (if wr \<and> total_packets st mod 2 = 0 then 2 else 0)"
  by (simp add: grant_credits_def send_credits_sent)

lemma buffer_packet_fields [simp]:
  "file_size (buffer_packet st seq p) = file_size st
   \<and> total_packets (buffer_packet st seq p) = total_packets st
   \<and> credits_sent (buffer_packet st seq p) = credits_sent st
   \<and> file_transfer_complete (buffer_packet st seq p) = file_transfer_complete st
   \<and> credit_writes (buffer_packet st seq p) = credit_writes st
   \<and> stop_notify_calls (buffer_packet st seq p) = stop_notify_calls st"
  by (simp add: buffer_packet_def Let_def split: list.split)

lemma on_data_packet_fields [simp]:
  "file_size (on_data_packet st wr seq p) = file_size st
   \<and> total_packets (on_data_packet st wr seq p) = total_packets st + 1
   \<and> file_transfer_complete (on_data_packet st wr seq p) = file_transfer_complete st
   \<and> stop_notify_calls (on_data_packet st wr seq p) = stop_notify_calls st"
  by (simp add: on_data_packet_def Let_def)

lemma on_data_packet_credits:
  "credits_sent (on_data_packet st wr seq p)
     = credits_sent st
       + (if wr \<and> expected_seq st \<le> seq \<and> (total_packets st + 1) mod 2 = 0 then 2 else 0)"
  by (simp add: on_data_packet_def Let_def grant_credits_sent)

lemma notification_handler_fields [simp]:
  "file_size (notification_handler st wr data) = file_size st
   \<and> stop_notify_calls (notification_handler st wr data) = stop_notify_calls st"
  by (simp add: notification_handler_def Let_def)

lemma notification_handler_credits_mono:
  "credits_sent st \<le> credits_sent (notification_handler st wr data)"
  by (simp add: notification_handler_def Let_def on_data_packet_credits)

lemma stall_recovery_fields [simp]:
  "file_size (stall_recovery st wr) = file_size st
   \<and> total_packets (stall_recovery st wr) = total_packets st
   \<and> file_transfer_complete (stall_recovery st wr) = file_transfer_complete st
   \<and> stop_notify_calls (stall_recovery st wr) = stop_notify_calls st"
  by (simp add: stall_recovery_def Let_def)

lemma stall_recovery_credits:
  "credits_sent (stall_recovery st wr) = credits_sent st + (if wr then 32 else 0)"
  by (simp add: stall_recovery_def Let_def send_credits_sent)

lemma perform_credits_mono: "credits_sent st \<le> credits_sent (perform st a)"
  by (cases a) (simp_all add: notification_handler_credits_mono stall_recovery_credits)

lemma foldl_perform_credits_mono: "credits_sent st \<le> credits_sent (foldl perform st acts)"
proof (induction acts arbitrary: st)
  case Nil
  show ?case by simp
next
  case (Cons a acts)
  from perform_credits_mono [of st a] Cons [of "perform st a"] show ?case by simp
qed

text \<open>
  What holds of the credit counter. With the transport accepting the writes: subscribing
  grants 64 credits; a packet that passed the length check advances the packet counter by
  one and grants 2 credits exactly when it is not stale (its sequence number is not below
  \<open>expected_seq\<close>) and the counter has become even; the stall recovery grants 32 credits,
  whatever the counter. A refused write grants nothing. \<open>credits_sent\<close> never decreases
  over the notifications and stall recoveries of a session.
\<close>

theorem credit_grants:
  "(subscribe_ok w \<and> initial_write_ok w \<and> ticks w = [] \<longrightarrow>
      credits_sent (snd (download_file w st0)) = 64
      \<and> credit_writes (snd (download_file w st0)) = credit_writes st0 @ [64])
   \<and> total_packets (on_data_packet st wr seq payload) = total_packets st + 1
   \<and> credits_sent (on_data_packet st wr seq payload)
       = credits_sent st
         + (if wr \<and> expected_seq st \<le> seq \<and> (total_packets st + 1) mod 2 = 0 then 2 else 0)
   \<and> credits_sent (stall_recovery st wr) = credits_sent st + (if wr then 32 else 0)
   \<and> credits_sent st \<le> credits_sent (foldl perform st acts)"
proof -
  have "credits_sent (snd (download_file w st0)) = 64
      \<and> credit_writes (snd (download_file w st0)) = credit_writes st0 @ [64]"
    if "subscribe_ok w" "initial_write_ok w" "ticks w = []"
    using that
    by (simp add: download_file_def Let_def send_credits_def reset_state_def)
  then show ?thesis
    using on_data_packet_credits stall_recovery_credits foldl_perform_credits_mono
    by simp
qed

theorem credit_grants_witness:
  "subscribe_ok \<lparr>subscribe_ok = True, initial_write_ok = True, ticks = [], unsubscribe_ok = True\<rparr>
   \<and> initial_write_ok \<lparr>subscribe_ok = True, initial_write_ok = True, ticks = [], unsubscribe_ok = True\<rparr>
   \<and> ticks \<lparr>subscribe_ok = True, initial_write_ok = True, ticks = [], unsubscribe_ok = True\<rparr> = []
   \<and> credits_sent (snd (download_file
         \<lparr>subscribe_ok = True, initial_write_ok = True, ticks = [], unsubscribe_ok = True\<rparr>
         (init_receiver\<lparr>file_size := 1000\<rparr>))) = 64
   \<and> credits_sent (on_data_packet (init_receiver\<lparr>total_packets := 1\<rparr>) True 0 [0x41]) = 2
   \<and> credits_sent (on_data_packet (init_receiver\<lparr>total_packets := 1, expected_seq := 1\<rparr>)
                      True 0 [0x41]) = 0
   \<and> credits_sent (stall_recovery init_receiver True) = 32"
  using credit_grants [of "\<lparr>subscribe_ok = True, initial_write_ok = True, ticks = [],
                            unsubscribe_ok = True\<rparr>"
                         "init_receiver\<lparr>file_size := 1000\<rparr>"
                         "init_receiver\<lparr>total_packets := 1\<rparr>" True 0 "[0x41]" "[]"]
        credit_grants [of "\<lparr>subscribe_ok = True, initial_write_ok = True, ticks = [],
                            unsubscribe_ok = True\<rparr>"
                         "init_receiver\<lparr>file_size := 1000\<rparr>"
                         "init_receiver\<lparr>total_packets := 1, expected_seq := 1\<rparr>" True 0 "[0x41]" "[]"]
        credit_grants [of "\<lparr>subscribe_ok = True, initial_write_ok = True, ticks = [],
                            unsubscribe_ok = True\<rparr>"
                         "init_receiver\<lparr>file_size := 1000\<rparr>"
                         "init_receiver" True 0 "[0x41]" "[]"]
  by (simp add: init_receiver_def)

text \<open>
  C6 fails on a stale packet: packet 0, the same packet again, then packet 1, all with
  correct checksums and accepted writes. The duplicate is counted at line 215 and leaves the
  handler at line 220, before the grant of lines 257 and 258 (\<open>Every 2 packets\<close>): after two
  packets no credit has been granted. It has moved the counter to 2, so the third packet
  finds it odd, and after three packets there is still no credit.
\<close>

theorem stale_packet_skips_credit_grant:
  "total_packets (deliver init_receiver
       [(True, data_frame 0 0xB915 [0x41]), (True, data_frame 0 0xB915 [0x41])]) = 2
   \<and> credits_sent (deliver init_receiver
       [(True, data_frame 0 0xB915 [0x41]), (True, data_frame 0 0xB915 [0x41])]) = 0
   \<and> total_packets (deliver init_receiver
       [(True, data_frame 0 0xB915 [0x41]), (True, data_frame 0 0xB915 [0x41]),
        (True, data_frame 1 0x8976 [0x42])]) = 3
   \<and> received_data (deliver init_receiver
       [(True, data_frame 0 0xB915 [0x41]), (True, data_frame 0 0xB915 [0x41]),
        (True, data_frame 1 0x8976 [0x42])]) = [0x41, 0x42]
   \<and> credits_sent (deliver init_receiver
       [(True, data_frame 0 0xB915 [0x41]), (True, data_frame 0 0xB915 [0x41]),
        (True, data_frame 1 0x8976 [0x42])]) = 0
   \<and> credit_writes (deliver init_receiver
       [(True, data_frame 0 0xB915 [0x41]), (True, data_frame 0 0xB915 [0x41]),
        (True, data_frame 1 0x8976 [0x42])]) = []
   \<and> console (deliver init_receiver
       [(True, data_frame 0 0xB915 [0x41]), (True, data_frame 0 0xB915 [0x41]),
        (True, data_frame 1 0x8976 [0x42])]) = []"
  by code_simp

text \<open>
  The other duplicate does reach the grant: packet 1 twice, ahead of \<open>expected_seq\<close> and so
  buffered both times, makes two packets and 2 credits.
\<close>

lemma buffered_duplicate_reaches_credit_grant:
  "total_packets (deliver init_receiver
       [(True, data_frame 1 0x8976 [0x42]), (True, data_frame 1 0x8976 [0x42])]) = 2
   \<and> credits_sent (deliver init_receiver
       [(True, data_frame 1 0x8976 [0x42]), (True, data_frame 1 0x8976 [0x42])]) = 2
   \<and> received_data (deliver init_receiver
       [(True, data_frame 1 0x8976 [0x42]), (True, data_frame 1 0x8976 [0x42])]) = []"
  by code_simp

subsection \<open>The polling loop\<close>

lemma deliver_fields [simp]:
  "file_size (deliver st frames) = file_size st
   \<and> stop_notify_calls (deliver st frames) = stop_notify_calls st"
  unfolding deliver_def
  by (induction frames arbitrary: st) (simp_all add: case_prod_beta)

lemma deliver_Nil [simp]: "deliver st [] = st"
  by (simp add: deliver_def)

lemma stall_check_fields:
  assumes "stall_check t lr sc st = Some (lr', sc', st')"
  shows "file_size st' = file_size st" "stop_notify_calls st' = stop_notify_calls st"
    "file_transfer_complete st' = file_transfer_complete st"
  using assms by (auto simp: stall_check_def Let_def split: if_splits)

lemma loop_body_Next_fields:
  assumes "loop_body t lr sc st = Next lr' sc' st'"
  shows "file_size st' = file_size st" "stop_notify_calls st' = stop_notify_calls st"
  using assms stall_check_fields [of t lr sc "deliver st (arrivals t)"]
  by (auto simp: loop_body_def Let_def split: if_splits option.splits)

lemma loop_body_Leave_fields:
  assumes "loop_body t lr sc st = Leave oc st'"
  shows "file_size st' = file_size st" "stop_notify_calls st' = stop_notify_calls st"
    "oc = TimedOut \<longrightarrow> received_data st' = [] \<and> elapsed t > 60"
    "oc \<noteq> Aborted"
  using assms stall_check_fields [of t lr sc "deliver st (arrivals t)"]
  by (auto simp: loop_body_def Let_def split: if_splits option.splits)

lemma download_loop_result:
  assumes "download_loop ts lr sc st = (r, st')"
  shows "file_size st' = file_size st \<and> stop_notify_calls st' = stop_notify_calls st
         \<and> (r = Some TimedOut \<longrightarrow> received_data st' = []) \<and> r \<noteq> Some Aborted"
  using assms
proof (induction ts arbitrary: lr sc st)
  case Nil
  then show ?case by (auto split: if_splits)
next
  case (Cons t ts)
  show ?case
  proof (cases "length (received_data st) < file_size st \<and> \<not> file_transfer_complete st")
    case False
    with Cons.prems show ?thesis by auto
  next
    case True
    show ?thesis
    proof (cases "loop_body t lr sc st")
      case (Next lr' sc' s1)
      with True Cons.prems have "download_loop ts lr' sc' s1 = (r, st')" by simp
      from Cons.IH [OF this] loop_body_Next_fields [OF Next] show ?thesis by simp
    next
      case (Leave oc s1)
      with True Cons.prems have "r = Some oc" "st' = s1" by simp_all
      with loop_body_Leave_fields [OF Leave] show ?thesis by simp
    qed
  qed
qed

text \<open>How often \<open>stop_notify\<close> is called, by the way \<open>download_file\<close> is left.\<close>

lemma stop_notify_calls_by_outcome:
  "stop_notify_calls (snd (download_file w st))
     = stop_notify_calls st
       + (case fst (download_file w st) of
            Some Complete \<Rightarrow> 1
          | Some AcceptedIncomplete \<Rightarrow> 1
          | Some Aborted \<Rightarrow> (if subscribe_ok w then 1 else 0)
          | Some TimedOut \<Rightarrow> 0
          | None \<Rightarrow> 0)"
proof (cases "subscribe_ok w")
  case False
  then show ?thesis by (simp add: download_file_def Let_def reset_state_def)
next
  case True
  let ?s1 = "send_credits (reset_state st) (initial_write_ok w) 64"
  obtain r s2 where run: "download_loop (ticks w) 0 0 ?s1 = (r, s2)"
    by (cases "download_loop (ticks w) 0 0 ?s1")
  from download_loop_result [OF run]
  have calls: "stop_notify_calls s2 = stop_notify_calls st" and na: "r \<noteq> Some Aborted"
    by (simp_all add: reset_state_def)
  show ?thesis
  proof (cases r)
    case None
    with True run calls show ?thesis by (simp add: download_file_def Let_def)
  next
    case (Some oc)
    with True run calls na show ?thesis
      by (cases oc) (simp_all add: download_file_def Let_def)
  qed
qed

text \<open>
  C3 fails on the timeout path. A session with a declared size of 1000 bytes in which nothing
  arrives and the clock reads 61 seconds at the first timeout check is left by the
  \<open>return False\<close> of line 327: \<open>stop_notify\<close> has not been called. By
  \<open>stop_notify_calls_by_outcome\<close> the call is made once on every other way out that
  follows a successful subscription.
\<close>

theorem timeout_leaves_subscription_open:
  "fst (download_file
     (session [silent_tick 61]) (receiver_for 1000)) = Some TimedOut
   \<and> stop_notify_calls (snd (download_file
     (session [silent_tick 61]) (receiver_for 1000))) = 0"
  by code_simp

subsection \<open>The output only grows\<close>










subsection \<open>A session in which nothing arrives\<close>






subsection \<open>Stall detection\<close>

lemma progress_at_least_99:
  assumes "0 < fs"
  shows "99 \<le> real n / real fs * 100 \<longleftrightarrow> 99 * fs \<le> 100 * n"
proof -
  have "99 \<le> real n / real fs * 100 \<longleftrightarrow> 99 * real fs \<le> real n * 100"
    using assms by (simp add: pos_le_divide_eq)
  also have "\<dots> \<longleftrightarrow> real (99 * fs) \<le> real (100 * n)"
    by (simp add: mult.commute)
  also have "\<dots> \<longleftrightarrow> 99 * fs \<le> 100 * n"
    by (rule of_nat_le_iff)
  finally show ?thesis .
qed

lemma unchanged_rounds_loop:
  assumes "length (received_data st) < file_size st" "\<not> file_transfer_complete st"
    and "unchanged_rounds st qs" "sc + length qs \<le> 20"
  shows "download_loop (qs @ rest) (length (received_data st)) sc st
           = download_loop rest (length (received_data st)) (sc + length qs) (after_rounds st qs)
         \<and> length (received_data (after_rounds st qs)) = length (received_data st)
         \<and> \<not> file_transfer_complete (after_rounds st qs)
         \<and> file_size (after_rounds st qs) = file_size st"
  using assms
proof (induction qs arbitrary: st sc)
  case Nil
  then show ?case by (simp add: after_rounds_def)
next
  case (Cons q qs)
  let ?s = "deliver st (arrivals q)"
  let ?lr = "length (received_data st)"
  from Cons.prems(3) have q: "\<not> file_transfer_complete ?s" "length (received_data ?s) = ?lr"
      "\<not> (elapsed q > 60 \<and> received_data ?s = [])" "unchanged_rounds ?s qs"
    by (simp_all add: Let_def)
  from Cons.prems(4) have sc: "\<not> sc + 1 > 20" "sc + 1 + length qs \<le> 20" by simp_all
  have body: "loop_body q ?lr sc st = Next ?lr (sc + 1) ?s"
    using q sc(1) by (simp add: loop_body_def stall_check_def Let_def)
  have run: "length (received_data ?s) < file_size ?s"
    using Cons.prems(1) q(2) by simp
  from Cons.IH [OF run q(1) q(4) sc(2), unfolded q(2)]
  have ih: "download_loop (qs @ rest) ?lr (sc + 1) ?s
              = download_loop rest ?lr (sc + 1 + length qs) (after_rounds ?s qs)"
      "length (received_data (after_rounds ?s qs)) = ?lr"
      "\<not> file_transfer_complete (after_rounds ?s qs)"
      "file_size (after_rounds ?s qs) = file_size st"
    by simp_all
  have ar: "after_rounds st (q # qs) = after_rounds ?s qs" by (simp add: after_rounds_def)
  from body ih Cons.prems(1,2) show ?case unfolding ar by simp
qed

lemma stall_recovery_skips:
  assumes "packet_buffer st \<noteq> []"
    and "Min (fst ` set (packet_buffer st)) \<le> expected_seq st + 10"
  shows "without_console (stall_recovery st wr)
           = without_console (process_buffered_packets
               ((send_credits st wr 32)\<lparr>expected_seq := Min (fst ` set (packet_buffer st))\<rparr>))"
proof -
  let ?m = "Min (fst ` set (packet_buffer st))"
  let ?s2 = "send_credits (print (TransferStalled (length (received_data st))
                                   (length (packet_buffer st))) st) wr 32"
  have c: "without_console ?s2 = without_console (send_credits st wr 32)"
    by (rule send_credits_cong) simp
  have "without_console ((print (SkippingGap (expected_seq st) ?m) (print AttemptingBuffered ?s2))
                           \<lparr>expected_seq := ?m\<rparr>)
        = without_console ((send_credits st wr 32)\<lparr>expected_seq := ?m\<rparr>)"
    using without_console_eqD [OF c] by (intro without_console_eqI) simp_all
  from process_buffered_packets_cong [OF this] assms show ?thesis
    by (simp add: stall_recovery_def Let_def)
qed

lemma stall_recovery_waits:
  assumes "packet_buffer st = [] \<or> expected_seq st + 10 < Min (fst ` set (packet_buffer st))"
  shows "without_console (stall_recovery st wr) = without_console (send_credits st wr 32)"
proof -
  let ?s2 = "send_credits (print (TransferStalled (length (received_data st))
                                   (length (packet_buffer st))) st) wr 32"
  have c: "without_console ?s2 = without_console (send_credits st wr 32)"
    by (rule send_credits_cong) simp
  show ?thesis
  proof (cases "packet_buffer st = []")
    case True
    with c show ?thesis by (simp add: stall_recovery_def Let_def)
  next
    case False
    define m where "m = Min (fst ` set (packet_buffer st))"
    from False assms have "expected_seq st + 10 < m" by (simp only: m_def) simp
    then have far: "\<not> int m - int (expected_seq st) \<le> 10" by linarith
    have "stall_recovery st wr = print AttemptingBuffered ?s2"
      using False far
      by (simp add: stall_recovery_def Let_def m_def [symmetric] del: Min_gr_iff Min_less_iff)
    with c show ?thesis by simp
  qed
qed

text \<open>
  C4, as the code has it. The stall branch is entered when \<open>stall_count\<close> has passed 20, that
  is at the 21st consecutive sample that finds \<open>bytes_received\<close> unchanged. After 21 such
  rounds, counted from \<open>stall_count = 0\<close>, the session ends as accepted when at least 99
  percent of the declared size is there; otherwise it runs the stall recovery and goes on with
  \<open>stall_count = 0\<close> (unless the hard timeout strikes). The stall recovery grants 32 credits
  when the write succeeds; if the buffer is not empty and its lowest key is at most 10 above
  \<open>expected_seq\<close>, it moves \<open>expected_seq\<close> to that key and runs
  \<open>process_buffered_packets\<close>; else it does nothing more.
\<close>

theorem stall_handling_at_21st_unchanged_sample:
  "(length (received_data st) < file_size st \<and> \<not> file_transfer_complete st
      \<and> length qs = 20 \<and> unchanged_rounds st (qs @ [t]) \<longrightarrow>
    download_loop (qs @ t # rest) (length (received_data st)) 0 st
      = (let s1 = after_rounds st (qs @ [t]) in
         if 99 * file_size s1 \<le> 100 * length (received_data s1)
         then (Some AcceptedIncomplete, print TransferNearlyComplete s1)
         else (let s2 = stall_recovery s1 (stall_write_ok t) in
               if elapsed t > 60 \<and> received_data s2 = []
               then (Some TimedOut, print TimeoutNoData s2)
               else download_loop rest (length (received_data st)) 0 s2)))
   \<and> credits_sent (stall_recovery s wr) = credits_sent s + (if wr then 32 else 0)
   \<and> (packet_buffer s \<noteq> [] \<and> Min (fst ` set (packet_buffer s)) \<le> expected_seq s + 10 \<longrightarrow>
        without_console (stall_recovery s wr)
          = without_console (process_buffered_packets
              ((send_credits s wr 32)\<lparr>expected_seq := Min (fst ` set (packet_buffer s))\<rparr>)))
   \<and> (packet_buffer s = [] \<or> expected_seq s + 10 < Min (fst ` set (packet_buffer s)) \<longrightarrow>
        without_console (stall_recovery s wr) = without_console (send_credits s wr 32))"
proof -
  have A: "download_loop (qs @ t # rest) (length (received_data st)) 0 st
      = (let s1 = after_rounds st (qs @ [t]) in
         if 99 * file_size s1 \<le> 100 * length (received_data s1)
         then (Some AcceptedIncomplete, print TransferNearlyComplete s1)
         else (let s2 = stall_recovery s1 (stall_write_ok t) in
               if elapsed t > 60 \<and> received_data s2 = []
               then (Some TimedOut, print TimeoutNoData s2)
               else download_loop rest (length (received_data st)) 0 s2))"
    if h: "length (received_data st) < file_size st" "\<not> file_transfer_complete st"
      "length qs = 20" "unchanged_rounds st (qs @ [t])"
  proof -
    let ?lr = "length (received_data st)"
    let ?s0 = "after_rounds st qs"
    let ?s1 = "deliver ?s0 (arrivals t)"
    have split: "unchanged_rounds a (xs @ [x])
        \<longleftrightarrow> unchanged_rounds a xs \<and> unchanged_rounds (after_rounds a xs) [x]" for a xs x
      by (induction xs arbitrary: a) (simp_all add: after_rounds_def Let_def)
    from h(4) have u: "unchanged_rounds st qs" "unchanged_rounds ?s0 [t]"
      by (simp_all add: split)
    from unchanged_rounds_loop [OF h(1,2) u(1), of 0 "t # rest"] h(3)
    have run: "download_loop (qs @ t # rest) ?lr 0 st = download_loop (t # rest) ?lr 20 ?s0"
      and s0: "length (received_data ?s0) = ?lr" "\<not> file_transfer_complete ?s0"
        "file_size ?s0 = file_size st"
      by simp_all
    from u(2) s0 have t: "\<not> file_transfer_complete ?s1" "length (received_data ?s1) = ?lr"
      by (simp_all add: Let_def)
    have s1: "after_rounds st (qs @ [t]) = ?s1" by (simp add: after_rounds_def)
    have fs: "0 < file_size ?s1" "file_size ?s1 = file_size st" using h(1) s0 by simp_all
    have cont: "download_loop (t # rest) ?lr 20 ?s0
        = (case loop_body t ?lr 20 ?s0 of
             Next lr' sc' st' \<Rightarrow> download_loop rest lr' sc' st'
           | Leave oc st' \<Rightarrow> (Some oc, st'))"
      using h(1) s0 by simp
    show ?thesis
    proof (cases "99 * file_size ?s1 \<le> 100 * length (received_data ?s1)")
      case True
      then have "stall_check t ?lr 20 ?s1 = None"
        using t(2) fs(1) progress_at_least_99 [OF fs(1), of "length (received_data ?s1)"]
        by (simp add: stall_check_def Let_def)
      with True t(1) show ?thesis unfolding run cont s1
        by (simp add: loop_body_def Let_def)
    next
      case False
      then have "stall_check t ?lr 20 ?s1
                   = Some (?lr, 0, stall_recovery ?s1 (stall_write_ok t))"
        using t(2) fs(1) progress_at_least_99 [OF fs(1), of "length (received_data ?s1)"]
        by (simp add: stall_check_def Let_def)
      with False t(1) show ?thesis unfolding run cont s1
        by (simp add: loop_body_def Let_def)
    qed
  qed
  from A stall_recovery_credits [of s wr] stall_recovery_skips [of s wr]
       stall_recovery_waits [of s wr]
  show ?thesis by blast
qed

theorem stall_handling_at_21st_unchanged_sample_witness:
  "length (received_data (receiver_for 1000)) < file_size (receiver_for 1000)
   \<and> \<not> file_transfer_complete (receiver_for 1000)
   \<and> length (\<lparr>arrivals = [(True, data_frame 5 0xF991 [0x45])], stall_write_ok = True,
                 elapsed = 1 / 2\<rparr> # replicate 19 (silent_tick 10)) = 20
   \<and> unchanged_rounds (receiver_for 1000) (\<lparr>arrivals = [(True, data_frame 5 0xF991 [0x45])], stall_write_ok = True, elapsed = 1 / 2\<rparr>
          # replicate 19 (silent_tick 10) @ [silent_tick 10])
   \<and> download_loop (\<lparr>arrivals = [(True, data_frame 5 0xF991 [0x45])], stall_write_ok = True, elapsed = 1 / 2\<rparr>
          # replicate 19 (silent_tick 10) @ [silent_tick 10]) 0 0 (receiver_for 1000)
       = (None, stall_recovery (after_rounds (receiver_for 1000) (\<lparr>arrivals = [(True, data_frame 5 0xF991 [0x45])], stall_write_ok = True, elapsed = 1 / 2\<rparr>
          # replicate 19 (silent_tick 10) @ [silent_tick 10])) True)
   \<and> packet_buffer (after_rounds (receiver_for 1000) (\<lparr>arrivals = [(True, data_frame 5 0xF991 [0x45])], stall_write_ok = True, elapsed = 1 / 2\<rparr>
          # replicate 19 (silent_tick 10) @ [silent_tick 10])) = [(5, [0x45])]
   \<and> credits_sent (stall_recovery (after_rounds (receiver_for 1000) (\<lparr>arrivals = [(True, data_frame 5 0xF991 [0x45])], stall_write_ok = True, elapsed = 1 / 2\<rparr>
          # replicate 19 (silent_tick 10) @ [silent_tick 10])) True) = 32
   \<and> expected_seq (stall_recovery (after_rounds (receiver_for 1000) (\<lparr>arrivals = [(True, data_frame 5 0xF991 [0x45])], stall_write_ok = True, elapsed = 1 / 2\<rparr>
          # replicate 19 (silent_tick 10) @ [silent_tick 10])) True) = 6
   \<and> received_data (stall_recovery (after_rounds (receiver_for 1000) (\<lparr>arrivals = [(True, data_frame 5 0xF991 [0x45])], stall_write_ok = True, elapsed = 1 / 2\<rparr>
          # replicate 19 (silent_tick 10) @ [silent_tick 10])) True) = [0x45]"
proof -
  let ?S = "receiver_for 1000"
  let ?q = "\<lparr>arrivals = [(True, data_frame 5 0xF991 [0x45])], stall_write_ok = True,
             elapsed = 1 / 2\<rparr>"
  let ?qs = "?q # replicate 19 (silent_tick 10)"
  let ?A = "after_rounds ?S (?qs @ [silent_tick 10])"
  have h: "length (received_data ?S) < file_size ?S" "\<not> file_transfer_complete ?S"
      "length ?qs = 20"
    by (simp_all add: receiver_for_def init_receiver_def)
  have u: "unchanged_rounds ?S (?qs @ [silent_tick 10])" by code_simp
  have a: "file_size ?A = 1000" "received_data ?A = []" "\<not> file_transfer_complete ?A"
      "packet_buffer ?A = [(5, [0x45])]"
    by code_simp+
  have r: "credits_sent (stall_recovery ?A True) = 32"
      "expected_seq (stall_recovery ?A True) = 6"
      "received_data (stall_recovery ?A True) = [0x45]"
    by code_simp+
  from stall_handling_at_21st_unchanged_sample
         [of ?S ?qs "silent_tick 10" "[]" ?S True] h u
  have "download_loop (?qs @ [silent_tick 10]) (length (received_data ?S)) 0 ?S
      = (let s1 = ?A in
         if 99 * file_size s1 \<le> 100 * length (received_data s1)
         then (Some AcceptedIncomplete, print TransferNearlyComplete s1)
         else (let s2 = stall_recovery s1 (stall_write_ok (silent_tick 10)) in
               if elapsed (silent_tick 10) > 60 \<and> received_data s2 = []
               then (Some TimedOut, print TimeoutNoData s2)
               else download_loop [] (length (received_data ?S)) 0 s2))"
    by blast
  then have "download_loop (?qs @ [silent_tick 10]) 0 0 ?S = (None, stall_recovery ?A True)"
    using a r by (simp add: Let_def silent_tick_def receiver_for_def init_receiver_def)
  with h u a r show ?thesis by simp
qed

text \<open>
  C4 as stated fails: after 20 consecutive unchanged samples the stall branch has not been
  entered (no credits beyond the first 64, nothing printed); it is entered at the 21st.
\<close>

theorem twenty_unchanged_samples_not_a_stall:
  "fst (download_file (session (replicate 20 (silent_tick 10))) (receiver_for 1000)) = None
   \<and> credits_sent (snd (download_file (session (replicate 20 (silent_tick 10)))
                          (receiver_for 1000))) = 64
   \<and> credit_writes (snd (download_file (session (replicate 20 (silent_tick 10)))
                           (receiver_for 1000))) = [64]
   \<and> console (snd (download_file (session (replicate 20 (silent_tick 10)))
                     (receiver_for 1000))) = []
   \<and> fst (download_file (session (replicate 21 (silent_tick 10))) (receiver_for 1000)) = None
   \<and> credits_sent (snd (download_file (session (replicate 21 (silent_tick 10)))
                          (receiver_for 1000))) = 96
   \<and> credit_writes (snd (download_file (session (replicate 21 (silent_tick 10)))
                           (receiver_for 1000))) = [64, 32]
   \<and> console (snd (download_file (session (replicate 21 (silent_tick 10)))
                     (receiver_for 1000))) = [TransferStalled 0 0]"
  by code_simp

subsection \<open>The first missing sequence number\<close>

lemma first_missing_from_props:
  "n \<le> first_missing_from seqs n \<and> first_missing_from seqs n \<notin> set seqs
   \<and> (\<forall>k. n \<le> k \<and> k < first_missing_from seqs n \<longrightarrow> k \<in> set seqs)"
proof (induction seqs n rule: first_missing_from.induct)
  case (1 seqs n)
  show ?case
  proof (cases "n \<in> set seqs")
    case False
    then show ?thesis by (auto simp: first_missing_from.simps [of seqs n])
  next
    case True
    have eq: "first_missing_from seqs n = first_missing_from seqs (n + 1)"
      using True by (simp add: first_missing_from.simps [of seqs n])
    from "1" [OF True]
    have ih: "n + 1 \<le> first_missing_from seqs (n + 1)"
        "first_missing_from seqs (n + 1) \<notin> set seqs"
        "\<And>k. n + 1 \<le> k \<Longrightarrow> k < first_missing_from seqs (n + 1) \<Longrightarrow> k \<in> set seqs"
      by auto
    have "k \<in> set seqs" if "n \<le> k" "k < first_missing_from seqs (n + 1)" for k
    proof (cases "k = n")
      case True
      with \<open>n \<in> set seqs\<close> show ?thesis by simp
    next
      case False
      with that ih(3) [of k] show ?thesis by simp
    qed
    with ih(1,2) show ?thesis unfolding eq by auto
  qed
qed

lemma first_missing_notin: "first_missing seqs \<notin> set seqs"
  using first_missing_from_props [of 0 seqs] by (simp add: first_missing_def)

lemma below_first_missing: "k < first_missing seqs \<Longrightarrow> k \<in> set seqs"
  using first_missing_from_props [of 0 seqs] by (simp add: first_missing_def)

lemma first_missing_eqI:
  assumes "m \<notin> set seqs" "\<And>k. k < m \<Longrightarrow> k \<in> set seqs"
  shows "first_missing seqs = m"
proof (rule antisym)
  show "first_missing seqs \<le> m"
    using assms(1) below_first_missing [of m seqs] by (meson not_le)
  show "m \<le> first_missing seqs"
    using assms(2) [of "first_missing seqs"] first_missing_notin [of seqs] by (meson not_le)
qed

lemma first_missing_mono:
  assumes "set xs \<subseteq> set ys"
  shows "first_missing xs \<le> first_missing ys"
proof (rule ccontr)
  assume "\<not> first_missing xs \<le> first_missing ys"
  then have "first_missing ys \<in> set xs" by (intro below_first_missing) simp
  with assms first_missing_notin [of ys] show False by auto
qed

lemma within_window_snoc:
  "within_window (seqs @ [s])
     \<longleftrightarrow> within_window seqs \<and> s \<le> first_missing seqs + 50"
  by (auto simp: within_window_def list_all_iff nth_append)

subsection \<open>Reassembly while every packet stays within the window\<close>

lemma assembled_cong:
  assumes "expected_seq b = expected_seq a" "received_data b = received_data a"
    "packet_buffer b = packet_buffer a"
  shows "assembled A b = assembled A a"
  using assms by (simp add: assembled_def)

lemma process_buffered_loop_assembled:
  assumes "assembled A st"
  shows "assembled A (process_buffered_loop st)
         \<and> expected_seq (process_buffered_loop st) \<notin> dom A
         \<and> expected_seq st \<le> expected_seq (process_buffered_loop st)"
  using assms
proof (induction st rule: process_buffered_loop.induct)
  case (1 st)
  let ?e = "expected_seq st"
  from "1.prems" have buf: "map_of (packet_buffer st) = A |` {k. ?e \<le> k}"
    by (simp add: assembled_def)
  then have at_e: "map_of (packet_buffer st) ?e = A ?e"
    by simp
  show ?case
  proof (cases "map_of (packet_buffer st) ?e")
    case None
    with at_e have "?e \<notin> dom A" by (simp add: domIff)
    with None "1.prems" show ?thesis
      by (simp add: process_buffered_loop.simps [of st])
  next
    case (Some payload)
    let ?st' = "st\<lparr>packet_buffer := AList.delete ?e (packet_buffer st),
                    received_data := received_data st @ payload,
                    expected_seq := ?e + 1\<rparr>"
    from Some at_e have Ae: "A ?e = Some payload" by simp
    have "map_of (AList.delete ?e (packet_buffer st)) = A |` {k. ?e + 1 \<le> k}"
      unfolding delete_conv' buf
    proof
      fix k
      show "((A |` {k. ?e \<le> k})(?e := None)) k = (A |` {k. ?e + 1 \<le> k}) k"
        by (cases "k = ?e") (auto simp: restrict_map_def)
    qed
    moreover have "\<forall>k < ?e + 1. k \<in> dom A"
      using "1.prems" Ae by (auto simp: assembled_def less_Suc_eq)
    moreover have "distinct (map fst (AList.delete ?e (packet_buffer st)))"
      using "1.prems" by (simp add: assembled_def distinct_delete)
    ultimately have "assembled A ?st'"
      using "1.prems" Ae by (simp add: assembled_def)
    from "1.IH" [OF Some this] Some show ?thesis
      by (simp add: process_buffered_loop.simps [of st])
  qed
qed

lemma window_buffer_length:
  assumes "assembled A st" "expected_seq st \<notin> dom A"
    and "\<forall>k \<in> dom A. k \<le> expected_seq st + 50"
  shows "length (packet_buffer st) \<le> 50"
proof -
  let ?e = "expected_seq st"
  from assms(1) have buf: "map_of (packet_buffer st) = A |` {k. ?e \<le> k}"
    and d: "distinct (map fst (packet_buffer st))"
    by (simp_all add: assembled_def)
  have "fst ` set (packet_buffer st) = dom (map_of (packet_buffer st))"
    by (simp add: dom_map_of_conv_image_fst)
  also have "\<dots> = dom A \<inter> {k. ?e \<le> k}" unfolding buf by simp
  also have "\<dots> \<subseteq> {?e<..?e + 50}"
    using assms(2,3) by (auto simp: order_le_less)
  finally have sub: "set (map fst (packet_buffer st)) \<subseteq> {?e<..?e + 50}" by simp
  have "length (packet_buffer st) = card (set (map fst (packet_buffer st)))"
    using distinct_card [OF d] by simp
  also have "\<dots> \<le> card {?e<..?e + 50}"
    by (rule card_mono [OF _ sub]) simp
  finally show ?thesis by simp
qed

lemma on_data_packet_assembles:
  assumes asm: "assembled A st" and top: "expected_seq st \<notin> dom A"
    and win: "\<forall>k \<in> dom A. k \<le> expected_seq st + 50"
    and near: "seq \<le> expected_seq st + 50"
  shows "assembled (if seq \<in> dom A then A else A(seq \<mapsto> payload))
           (on_data_packet st wr seq payload)
         \<and> expected_seq (on_data_packet st wr seq payload)
             \<notin> dom (if seq \<in> dom A then A else A(seq \<mapsto> payload))
         \<and> (\<forall>k \<in> dom (if seq \<in> dom A then A else A(seq \<mapsto> payload)).
               k \<le> expected_seq (on_data_packet st wr seq payload) + 50)"
proof -
  let ?e = "expected_seq st"
  let ?st = "st\<lparr>total_packets := total_packets st + 1\<rparr>"
  let ?f = "\<lambda>A k. case A k of Some payload \<Rightarrow> payload | None \<Rightarrow> []"
  from asm have below: "\<forall>k < ?e. k \<in> dom A"
    and out: "received_data st = concat (map (?f A) [0..<?e])"
    and buf: "map_of (packet_buffer st) = A |` {k. ?e \<le> k}"
    and dist: "distinct (map fst (packet_buffer st))"
    by (simp_all add: assembled_def)
  consider (stale) "seq < ?e" | (inorder) "seq = ?e" | (ahead) "?e < seq" by linarith
  then show ?thesis
  proof cases
    case stale
    with below have "seq \<in> dom A" by simp
    moreover have "assembled A ?st = assembled A st" by (rule assembled_cong) simp_all
    ultimately show ?thesis using stale asm top win by (simp add: on_data_packet_def)
  next
    case inorder
    let ?A' = "A(?e \<mapsto> payload)"
    let ?s1 = "?st\<lparr>received_data := received_data ?st @ payload,
                     expected_seq := expected_seq ?st + 1\<rparr>"
    have same: "concat (map (?f ?A') [0..<?e]) = concat (map (?f A) [0..<?e])"
      by (rule arg_cong [where f = concat], rule map_cong) auto
    have a1: "assembled ?A' ?s1"
      unfolding assembled_def
    proof (intro conjI)
      show "\<forall>k < expected_seq ?s1. k \<in> dom ?A'"
        using below by (auto simp: less_Suc_eq)
      have "received_data ?s1 = concat (map (?f ?A') [0..<?e]) @ payload"
        unfolding same using out by simp
      then show "received_data ?s1 = concat (map (?f ?A') [0..<expected_seq ?s1])"
        by simp
      show "map_of (packet_buffer ?s1) = ?A' |` {k. expected_seq ?s1 \<le> k}"
      proof
        fix k
        show "map_of (packet_buffer ?s1) k = (?A' |` {k. expected_seq ?s1 \<le> k}) k"
          using top buf by (cases "k = ?e") (auto simp: restrict_map_def domIff)
      qed
      show "distinct (map fst (packet_buffer ?s1))" using dist by simp
    qed
    note l = process_buffered_loop_assembled [OF a1]
    let ?l = "process_buffered_loop ?s1"
    from l have el: "?e + 1 \<le> expected_seq ?l" by simp
    have w: "\<forall>k \<in> dom ?A'. k \<le> expected_seq ?l + 50"
    proof
      fix k assume "k \<in> dom ?A'"
      then have "k = ?e \<or> k \<in> dom A" by auto
      with win have "k \<le> ?e + 50" by auto
      with el show "k \<le> expected_seq ?l + 50" by simp
    qed
    from window_buffer_length [of ?A' ?l] l w have "length (packet_buffer ?l) \<le> 50" by simp
    then have "process_buffered_packets ?s1 = ?l"
      by (simp add: process_buffered_packets_def Let_def max_buffer_size_def)
    moreover have "assembled ?A' (grant_credits ?l wr) = assembled ?A' ?l"
      by (rule assembled_cong) simp_all
    ultimately show ?thesis using inorder top l w
      by (simp add: on_data_packet_def Let_def)
  next
    case ahead
    have seq_buf: "map_of (packet_buffer st) seq = A seq"
      unfolding buf using ahead by simp
    show ?thesis
    proof (cases "A seq")
      case (Some y)
      then have "seq \<in> dom A" by (simp add: domIff)
      moreover have "buffer_packet ?st seq payload = ?st"
        using Some seq_buf by (simp add: buffer_packet_def)
      moreover have "assembled A (grant_credits ?st wr) = assembled A st"
        by (rule assembled_cong) simp_all
      ultimately show ?thesis using ahead asm top win
        by (simp add: on_data_packet_def Let_def)
    next
      case None
      let ?A' = "A(seq \<mapsto> payload)"
      let ?s1 = "?st\<lparr>packet_buffer := AList.update seq payload (packet_buffer ?st)\<rparr>"
      from None have nd: "seq \<notin> dom A" by (simp add: domIff)
      have bp: "buffer_packet ?st seq payload = ?s1"
        using None seq_buf near by (simp add: buffer_packet_def Let_def)
      have same: "concat (map (?f ?A') [0..<?e]) = concat (map (?f A) [0..<?e])"
        using ahead by (intro arg_cong [where f = concat] map_cong) auto
      have "assembled ?A' ?s1"
        unfolding assembled_def
      proof (intro conjI)
        show "\<forall>k < expected_seq ?s1. k \<in> dom ?A'" using below by simp
        show "received_data ?s1 = concat (map (?f ?A') [0..<expected_seq ?s1])"
          using out same by simp
        show "map_of (packet_buffer ?s1) = ?A' |` {k. expected_seq ?s1 \<le> k}"
        proof
          fix k
          show "map_of (packet_buffer ?s1) k = (?A' |` {k. expected_seq ?s1 \<le> k}) k"
            using ahead buf by (cases "k = seq") (auto simp: restrict_map_def update_conv')
        qed
        show "distinct (map fst (packet_buffer ?s1))" using dist by (simp add: distinct_update)
      qed
      moreover have "assembled ?A' (grant_credits ?s1 wr) = assembled ?A' ?s1"
        by (rule assembled_cong) simp_all
      ultimately show ?thesis using ahead nd top win near bp
        by (simp add: on_data_packet_def Let_def)
    qed
  qed
qed

subsection \<open>Frames and their fields\<close>

lemma length_pack_le [simp]: "length (pack_le n x) = n"
  by (induction n arbitrary: x) simp_all

lemma unpack_pack_le: "x < 256 ^ n \<Longrightarrow> unpack_le (pack_le n x) = x"
proof (induction n arbitrary: x)
  case 0
  then show ?case by simp
next
  case (Suc n)
  then have "x div 256 < 256 ^ n"
    by (simp add: less_mult_imp_div_less mult.commute)
  from Suc.IH [OF this] have "unpack_le (pack_le n (x div 256)) = x div 256" .
  moreover have "unat (of_nat (x mod 256) :: byte) = x mod 256"
    by (simp add: unat_of_nat)
  ultimately show ?case by simp
qed

lemma crc_shift_range: "0 \<le> crc_shift c \<and> crc_shift c < 65536"
proof -
  have "0 \<le> x AND 0xFFFF \<and> x AND 0xFFFF < 65536" for x :: int
    using AND_upper2 [of "0xFFFF" x] by simp
  then show ?thesis by (simp add: crc_shift_def)
qed

lemma crc_byte_range: "0 \<le> crc_byte c b \<and> crc_byte c b < 65536"
  using crc_shift_range by (simp add: crc_byte_def eval_nat_numeral)

lemma crc16_ccitt_range: "0 \<le> crc16_ccitt data \<and> crc16_ccitt data < 65536"
proof (induction data rule: rev_induct)
  case Nil
  show ?case by (simp add: crc16_ccitt_def)
next
  case (snoc b data)
  show ?case using crc_byte_range by (simp add: crc16_ccitt_def)
qed

lemma data_frame_fields:
  assumes "seq < 2 ^ 32" "length payload < 2 ^ 16" "c < 2 ^ 16"
  shows "length (data_frame seq c payload) = 8 + length payload"
    and "unpack_le (take 4 (data_frame seq c payload)) = seq"
    and "unpack_le (take 2 (drop 4 (data_frame seq c payload))) = length payload"
    and "unpack_le (take 2 (drop 6 (data_frame seq c payload))) = c"
    and "drop 8 (data_frame seq c payload) = payload"
  using assms by (simp_all add: data_frame_def unpack_pack_le)

lemma notification_handler_data_frame:
  assumes "seq < 2 ^ 32" "length payload < 2 ^ 16"
  shows "notification_handler st wr (data_frame seq (nat (crc16_ccitt payload)) payload)
           = on_data_packet st wr seq payload"
proof -
  let ?c = "nat (crc16_ccitt payload)"
  from crc16_ccitt_range [of payload] have c: "?c < 2 ^ 16" "int ?c = crc16_ccitt payload"
    by (simp_all add: nat_less_iff)
  note f = data_frame_fields [OF assms c(1)]
  show ?thesis
  proof (cases "payload = []")
    case True
    then have "crc16_ccitt payload = 0xFFFF" by (simp add: crc16_ccitt_def)
    with f True show ?thesis
      by (simp add: notification_handler_def Let_def)
  next
    case False
    with f c(2) show ?thesis
      by (simp add: notification_handler_def Let_def)
  qed
qed

lemma feed_snoc:
  "feed st (pkts @ [(seq, payload)])
     = notification_handler (feed st pkts) True
         (data_frame seq (nat (crc16_ccitt payload)) payload)"
  by (simp add: feed_def deliver_def)

lemma feed_assembles:
  assumes "within_window (map fst pkts)"
    and "\<forall>p \<in> set pkts. fst p < 2 ^ 32 \<and> length (snd p) < 2 ^ 16"
  shows "assembled (map_of pkts) (feed (reset_state st0) pkts)
         \<and> expected_seq (feed (reset_state st0) pkts) \<notin> dom (map_of pkts)
         \<and> (\<forall>k \<in> dom (map_of pkts). k \<le> expected_seq (feed (reset_state st0) pkts) + 50)"
  using assms
proof (induction pkts rule: rev_induct)
  case Nil
  show ?case by (simp add: feed_def deliver_def assembled_def reset_state_def restrict_map_def)
next
  case (snoc x pkts)
  obtain seq payload where x: "x = (seq, payload)" by (cases x)
  let ?st = "feed (reset_state st0) pkts"
  let ?A = "map_of pkts"
  from snoc.prems(1) have ww: "within_window (map fst pkts)"
    and near: "seq \<le> first_missing (map fst pkts) + 50"
    by (simp_all add: x within_window_snoc)
  from snoc.prems(2) have wf: "\<forall>p \<in> set pkts. fst p < 2 ^ 32 \<and> length (snd p) < 2 ^ 16"
    and wx: "seq < 2 ^ 32" "length payload < 2 ^ 16"
    by (simp_all add: x)
  note ih = snoc.IH [OF ww wf]
  have "first_missing (map fst pkts) = expected_seq ?st"
  proof (rule first_missing_eqI)
    show "expected_seq ?st \<notin> set (map fst pkts)"
      using ih by (simp add: dom_map_of_conv_image_fst)
    show "k \<in> set (map fst pkts)" if "k < expected_seq ?st" for k
      using ih that by (auto simp: assembled_def dom_map_of_conv_image_fst)
  qed
  with near have near': "seq \<le> expected_seq ?st + 50" by simp
  have A': "map_of (pkts @ [x]) = (if seq \<in> dom ?A then ?A else ?A(seq \<mapsto> payload))"
    by (rule ext) (auto simp: x map_add_def domIff split: option.split)
  have step: "feed (reset_state st0) (pkts @ [x]) = on_data_packet ?st True seq payload"
    by (simp only: x feed_snoc notification_handler_data_frame [OF wx])
  from on_data_packet_assembles [of ?A ?st seq payload True] ih near'
  show ?case unfolding step A' by blast
qed

text \<open>
  C1, as the code has it. Feed a freshly reset receiver any finite sequence of data packets
  in which no packet arrives more than 50 ahead of the first sequence number still missing
  at its arrival. Then the output is the concatenation, in ascending sequence order, of
  the payloads of the contiguous run 0, 1, 2, ... of sequence numbers that have all arrived
  (the first payload of a sequence number that arrived more than once), whatever the order
  of arrival, and \<open>expected_seq\<close> is the first sequence number that has not arrived.
\<close>

theorem in_order_delivery_within_window:
  assumes "within_window (map fst pkts)"
    and "\<forall>p \<in> set pkts. fst p < 2 ^ 32 \<and> length (snd p) < 2 ^ 16"
  shows "received_data (feed (reset_state st0) pkts) = in_order_prefix pkts
         \<and> expected_seq (feed (reset_state st0) pkts) = first_missing (map fst pkts)"
proof -
  let ?st = "feed (reset_state st0) pkts"
  note a = feed_assembles [OF assms, of st0]
  have e: "first_missing (map fst pkts) = expected_seq ?st"
  proof (rule first_missing_eqI)
    show "expected_seq ?st \<notin> set (map fst pkts)"
      using a by (simp add: dom_map_of_conv_image_fst)
    show "k \<in> set (map fst pkts)" if "k < expected_seq ?st" for k
      using a that by (auto simp: assembled_def dom_map_of_conv_image_fst)
  qed
  from a have "received_data ?st
      = concat (map (\<lambda>k. case map_of pkts k of Some payload \<Rightarrow> payload | None \<Rightarrow> [])
                    [0..<expected_seq ?st])"
    by (simp add: assembled_def)
  with e show ?thesis by (simp add: in_order_prefix_def)
qed

theorem in_order_delivery_within_window_witness:
  "within_window (map fst [(1 :: nat, [0x42, 0x43]), (0, [0x41]), (3, [0x45]), (1, [0x99]), (2, [0x44 :: byte])])
   \<and> list_all (\<lambda>p. fst p < 2 ^ 32 \<and> length (snd p) < 2 ^ 16)
        [(1 :: nat, [0x42, 0x43]), (0, [0x41]), (3, [0x45]), (1, [0x99]), (2, [0x44 :: byte])]
   \<and> received_data (feed (reset_state init_receiver)
        [(1, [0x42, 0x43]), (0, [0x41]), (3, [0x45]), (1, [0x99]), (2, [0x44])])
       = [0x41, 0x42, 0x43, 0x44, 0x45]
   \<and> expected_seq (feed (reset_state init_receiver)
        [(1, [0x42, 0x43]), (0, [0x41]), (3, [0x45]), (1, [0x99]), (2, [0x44])]) = 4"
proof -
  let ?P = "[(1 :: nat, [0x42, 0x43]), (0, [0x41]), (3, [0x45]), (1, [0x99]), (2, [0x44 :: byte])]"
  have h1: "within_window (map fst ?P)" by code_simp
  have h2: "\<forall>p \<in> set ?P. fst p < 2 ^ 32 \<and> length (snd p) < 2 ^ 16" by simp
  have io: "in_order_prefix ?P = [0x41, 0x42, 0x43, 0x44, 0x45]" by code_simp
  have fm: "first_missing (map fst ?P) = 4" by code_simp
  from in_order_delivery_within_window [OF h1 h2, of init_receiver] h1 h2
  show ?thesis unfolding io fm by (simp add: list_all_iff)
qed

text \<open>
  C1 as stated fails. Packet 51 alone, arriving first, is more than 50 ahead of
  \<open>expected_seq = 0\<close>: line 242 skips to it and its payload is output, though packet 0 has
  not arrived. And the order of arrival matters: packets 0 and 51 give the payload of 0 in one
  order and the payload of 51 in the other.
\<close>

theorem large_gap_breaks_in_order_delivery:
  "received_data (feed (reset_state init_receiver) [(51, [0x42])]) = [0x42]
   \<and> in_order_prefix [(51, [0x42])] = []
   \<and> received_data (feed (reset_state init_receiver) [(0, [0x41]), (51, [0x42])]) = [0x41]
   \<and> received_data (feed (reset_state init_receiver) [(51, [0x42]), (0, [0x41])]) = [0x42]
   \<and> in_order_prefix [(51, [0x42]), (0, [0x41])] = [0x41]"
  by code_simp

subsection \<open>The buffer can grow past its cap\<close>

lemma update_absent:
  "k \<notin> fst ` set al \<Longrightarrow> AList.update k v al = al @ [(k, v)]"
  by (induction al) auto

lemma delete_absent:
  "k \<notin> fst ` set al \<Longrightarrow> AList.delete k al = al"
  by (induction al) auto

lemma delete_append:
  "AList.delete k (xs @ ys) = AList.delete k xs @ AList.delete k ys"
  by (simp add: AList.delete_eq)

lemma process_buffered_loop_hit:
  assumes "map_of (packet_buffer st) (expected_seq st) = Some payload"
  shows "process_buffered_loop st
           = process_buffered_loop
               (st\<lparr>packet_buffer := AList.delete (expected_seq st) (packet_buffer st),
                   received_data := received_data st @ payload,
                   expected_seq := expected_seq st + 1\<rparr>)"
  using assms by (simp add: process_buffered_loop.simps [of st])

lemma process_buffered_loop_miss:
  assumes "map_of (packet_buffer st) (expected_seq st) = None"
  shows "process_buffered_loop st = st"
  using assms by (simp add: process_buffered_loop.simps [of st])

lemma near_insert:
  assumes "expected_seq st < s" "s \<le> expected_seq st + 50"
    and "s \<notin> fst ` set (packet_buffer st)"
  shows "expected_seq (on_data_packet st wr s p) = expected_seq st
         \<and> packet_buffer (on_data_packet st wr s p) = packet_buffer st @ [(s, p)]"
proof -
  from assms(3) have "map_of (packet_buffer st) s = None" by (simp add: map_of_None_iff)
  moreover from assms(2) have "\<not> s - expected_seq st > 50" by linarith
  ultimately show ?thesis using assms
    by (simp add: on_data_packet_def buffer_packet_def Let_def update_absent)
qed

lemma far_insert_after_near:
  assumes e: "expected_seq st = e" and b: "packet_buffer st = buf @ [(s, [])]"
    and s: "e < s"
    and keys: "\<forall>k \<in> fst ` set buf. s + 1 < k"
    and f: "f \<notin> fst ` set buf" "e + 50 < f \<and> s + 1 < f"
    and len: "length buf < 100"
  shows "expected_seq (on_data_packet st wr f q) = s + 1
         \<and> packet_buffer (on_data_packet st wr f q) = buf @ [(f, q)]"
proof -
  let ?st = "st\<lparr>total_packets := total_packets st + 1\<rparr>"
  let ?buf2 = "buf @ [(s, []), (f, q)]"
  have fk: "f \<notin> fst ` set (packet_buffer st)" using f b by auto
  then have none: "map_of (packet_buffer st) f = None" by (simp add: map_of_None_iff)
  have upd: "AList.update f q (packet_buffer st) = ?buf2"
    using update_absent [OF fk, of q] b by simp
  let ?ks = "map fst ?buf2"
  have all: "filter (\<lambda>s. e \<le> s) ?ks = ?ks"
    using keys f(2) s by (intro filter_True) auto
  have "sort ?ks \<noteq> []"
  proof
    assume "sort ?ks = []"
    then have "length (sort ?ks) = 0" by (simp only: list.size)
    then show False by simp
  qed
  then obtain m ms where srt: "sort ?ks = m # ms" by (cases "sort ?ks") auto
  have "m \<in> set ?ks" using srt by (metis list.set_intros(1) set_sort)
  then have "s \<le> m" using keys f(2) by auto
  moreover have "m \<le> s" using sort_head_least [OF srt] by simp
  ultimately have m: "m = s" by simp
  let ?s2 = "(print (SkippingToPacket s (s - e))
               (print (LargeGapDetected e f) (?st\<lparr>packet_buffer := ?buf2\<rparr>)))
             \<lparr>expected_seq := s\<rparr>"
  from f(2) have gap: "f - e > 50" by linarith
  have bp: "buffer_packet ?st f q = process_buffered_packets ?s2"
    using none upd e gap s all srt m
    by (simp add: buffer_packet_def Let_def)
  have e1: "s \<notin> fst ` set buf" using keys by auto
  have e2: "s + 1 \<notin> fst ` set buf" using keys by auto
  let ?s3 = "?s2\<lparr>packet_buffer := buf @ [(f, q)],
                   received_data := received_data ?s2 @ [],
                   expected_seq := s + 1\<rparr>"
  have hit: "map_of (packet_buffer ?s2) (expected_seq ?s2) = Some []"
    using e1 by (simp add: map_add_def map_of_None_iff [symmetric] split: option.split)
  have del: "AList.delete s ?buf2 = buf @ [(f, q)]"
    using delete_absent [OF e1] f(2) by (simp add: delete_append)
  have s3: "?s2\<lparr>packet_buffer := AList.delete (expected_seq ?s2) (packet_buffer ?s2),
                 received_data := received_data ?s2 @ [],
                 expected_seq := expected_seq ?s2 + 1\<rparr> = ?s3"
    using del by simp
  have miss: "map_of (packet_buffer ?s3) (expected_seq ?s3) = None"
    using e2 f(2) by (simp add: map_of_None_iff)
  from process_buffered_loop_hit [OF hit]
  have "process_buffered_loop ?s2 = process_buffered_loop ?s3" unfolding s3 .
  also have "\<dots> = ?s3" by (rule process_buffered_loop_miss [OF miss])
  finally have loop: "process_buffered_loop ?s2 = ?s3" .
  have pbp: "process_buffered_packets ?s2 = ?s3"
    unfolding process_buffered_packets_def Let_def loop
    using len by (simp add: max_buffer_size_def)
  have odp: "on_data_packet st wr f q = grant_credits (buffer_packet ?st f q) wr"
    using e f(2) s by (simp add: on_data_packet_def Let_def)
  show ?thesis unfolding odp bp pbp by simp
qed

lemma feed_append: "feed st (xs @ ys) = feed (feed st xs) ys"
  by (simp add: feed_def deliver_def)

lemma feed_empty_packet:
  assumes "s < 2 ^ 32"
  shows "feed st (pkts @ [(s, [])]) = on_data_packet (feed st pkts) True s []"
  using notification_handler_data_frame [OF assms, of "[]"] by (simp add: feed_snoc)

lemma pairs_Suc: "pairs (Suc n) = (pairs n @ [(2 * Suc n, [])]) @ [(200 + Suc n, [])]"
  by (simp add: pairs_def)

lemma far_keys_Suc: "far_keys (Suc n) = far_keys n @ [(200 + Suc n, [])]"
  by (simp add: far_keys_def)

lemma far_keys_bounds: "k \<in> fst ` set (far_keys n) \<Longrightarrow> 201 \<le> k \<and> k \<le> 200 + n"
  by (auto simp: far_keys_def)

lemma length_far_keys [simp]: "length (far_keys n) = n"
  by (simp add: far_keys_def)

lemma pairs_fill_buffer:
  assumes "n \<le> 51"
  shows "expected_seq (feed (reset_state init_receiver) (pairs n))
           = (if n = 0 then 0 else 2 * n + 1)
         \<and> packet_buffer (feed (reset_state init_receiver) (pairs n)) = far_keys n"
  using assms
proof (induction n)
  case 0
  show ?case
    by (simp add: pairs_def far_keys_def feed_def deliver_def reset_state_def init_receiver_def)
next
  case (Suc n)
  let ?S = "feed (reset_state init_receiver) (pairs n)"
  let ?e = "if n = 0 then 0 else 2 * n + 1"
  from Suc.IH Suc.prems have ih: "expected_seq ?S = ?e" "packet_buffer ?S = far_keys n"
    by simp_all
  let ?s = "2 * Suc n" and ?f = "200 + Suc n"
  let ?S1 = "on_data_packet ?S True ?s []"
  have a: "expected_seq ?S < ?s" and b: "?s \<le> expected_seq ?S + 50"
    unfolding ih by simp_all
  have c: "?s \<notin> fst ` set (packet_buffer ?S)"
    unfolding ih using far_keys_bounds [of ?s n] Suc.prems by fastforce
  from near_insert [OF a b c, of True "[]"]
  have near: "expected_seq ?S1 = ?e" "packet_buffer ?S1 = far_keys n @ [(?s, [])]"
    unfolding ih by simp_all
  have k: "\<forall>k \<in> fst ` set (far_keys n). ?s + 1 < k"
    using far_keys_bounds [of _ n] Suc.prems by fastforce
  have f1: "?f \<notin> fst ` set (far_keys n)"
    using far_keys_bounds [of ?f n] by fastforce
  have f2: "?e + 50 < ?f \<and> ?s + 1 < ?f" using Suc.prems by simp
  have e: "?e < ?s" by simp
  have len: "length (far_keys n) < 100" using Suc.prems by simp
  note far = far_insert_after_near [OF near(1) near(2) e k f1 f2 len, of True "[]"]
  have s32: "?s < 2 ^ 32" "?f < 2 ^ 32" using Suc.prems by simp_all
  have "feed (reset_state init_receiver) (pairs (Suc n)) = on_data_packet ?S1 True ?f []"
    unfolding pairs_Suc feed_empty_packet [OF s32(2)] feed_empty_packet [OF s32(1)] ..
  with far show ?case by (simp add: far_keys_Suc)
qed

lemma run_from_Suc: "run_from a (Suc m) = run_from a m @ [(a + m, [])]"
  by (simp add: run_from_def)

lemma run_from_bounds: "k \<in> fst ` set (run_from a m) \<Longrightarrow> a \<le> k \<and> k < a + m"
  by (auto simp: run_from_def)

lemma length_run_from [simp]: "length (run_from a m) = m"
  by (simp add: run_from_def)

lemma run_fills_buffer:
  assumes "expected_seq st = 103" "packet_buffer st = far_keys 51" "m \<le> 50"
  shows "expected_seq (feed st (run_from 104 m)) = 103
         \<and> packet_buffer (feed st (run_from 104 m)) = far_keys 51 @ run_from 104 m"
  using assms(3)
proof (induction m)
  case 0
  show ?case using assms(1,2) by (simp add: run_from_def feed_def deliver_def)
next
  case (Suc m)
  let ?S = "feed st (run_from 104 m)"
  from Suc.IH Suc.prems have ih: "expected_seq ?S = 103"
      "packet_buffer ?S = far_keys 51 @ run_from 104 m"
    by simp_all
  let ?s = "104 + m"
  have a: "expected_seq ?S < ?s" and b: "?s \<le> expected_seq ?S + 50"
    unfolding ih using Suc.prems by simp_all
  have c: "?s \<notin> fst ` set (packet_buffer ?S)"
    unfolding ih using far_keys_bounds [of ?s 51] run_from_bounds [of ?s 104 m] Suc.prems
    by fastforce
  have s32: "?s < 2 ^ 32" using Suc.prems by simp
  have "feed st (run_from 104 (Suc m)) = on_data_packet ?S True ?s []"
    unfolding run_from_Suc feed_empty_packet [OF s32] ..
  with near_insert [OF a b c, of True "[]"] ih show ?case
    by (simp add: run_from_Suc)
qed

text \<open>
  C2 fails on the code. After the 152 packets of \<open>overflow_arrivals\<close> the reorder buffer holds
  101 entries, one more than \<open>max_buffer_size\<close>: the last 50 packets are each within 50 of
  \<open>expected_seq\<close>, so line 231 inserts them and the handler returns without reaching the
  size check of \<open>process_buffered_packets\<close>.
\<close>

theorem buffer_grows_past_cap:
  "length overflow_arrivals = 152
   \<and> length (packet_buffer (feed (reset_state init_receiver) overflow_arrivals)) = 101
   \<and> expected_seq (feed (reset_state init_receiver) overflow_arrivals) = 103
   \<and> max_buffer_size = 100"
proof -
  let ?S = "feed (reset_state init_receiver) (pairs 51)"
  from pairs_fill_buffer [of 51]
  have p: "expected_seq ?S = 103" "packet_buffer ?S = far_keys 51" by simp_all
  from run_fills_buffer [OF p, of 50]
  have "expected_seq (feed ?S (run_from 104 50)) = 103"
    "packet_buffer (feed ?S (run_from 104 50)) = far_keys 51 @ run_from 104 50"
    by simp_all
  moreover have "length (pairs 51) = 102"
    by (simp add: pairs_def length_concat comp_def sum_list_triv)
  ultimately show ?thesis
    by (simp add: overflow_arrivals_def feed_append max_buffer_size_def)
qed

text \<open>
  Where the size check does run, it does what C2 says: with more than \<open>max_buffer_size\<close>
  entries left after the flush, the lowest keys are dropped and half the cap remains.
\<close>

lemma process_buffered_loop_distinct:
  assumes "distinct (map fst (packet_buffer st))"
  shows "distinct (map fst (packet_buffer (process_buffered_loop st)))"
  using assms
proof (induction st rule: process_buffered_loop.induct)
  case (1 st)
  show ?case
  proof (cases "map_of (packet_buffer st) (expected_seq st)")
    case None
    with "1.prems" show ?thesis by (simp add: process_buffered_loop_miss)
  next
    case (Some payload)
    from "1.IH" [OF Some] "1.prems" show ?thesis
      unfolding process_buffered_loop_hit [OF Some] by (simp add: distinct_delete)
  qed
qed

lemma foldl_drop_old_distinct:
  assumes "distinct (map fst (packet_buffer st))"
  shows "distinct (map fst (packet_buffer (foldl drop_old st ks)))"
  using assms by (induction ks arbitrary: st) (simp_all add: distinct_delete)

lemma eviction_drops_lowest_keys:
  assumes d: "distinct (map fst (packet_buffer st))"
    and over: "max_buffer_size < length (packet_buffer (process_buffered_loop st))"
  shows "fst ` set (packet_buffer (process_buffered_packets st))
           = set (drop (length (packet_buffer (process_buffered_loop st)) - max_buffer_size div 2)
                       (sort (map fst (packet_buffer (process_buffered_loop st)))))
         \<and> length (packet_buffer (process_buffered_packets st)) = max_buffer_size div 2
         \<and> (\<forall>gone \<in> fst ` set (packet_buffer (process_buffered_loop st))
                        - fst ` set (packet_buffer (process_buffered_packets st)).
              \<forall>kept \<in> fst ` set (packet_buffer (process_buffered_packets st)). gone < kept)"
proof -
  let ?l = "process_buffered_loop st"
  let ?ks = "sort (map fst (packet_buffer ?l))"
  let ?n = "length (packet_buffer ?l)"
  let ?c = "?n - max_buffer_size div 2"
  let ?r = "foldl drop_old ?l (take ?c ?ks)"
  have res: "process_buffered_packets st = ?r"
    using over by (simp add: process_buffered_packets_def Let_def)
  have dl: "distinct (map fst (packet_buffer ?l))"
    by (rule process_buffered_loop_distinct [OF d])
  then have dk: "distinct ?ks" and sk: "sorted ?ks" by simp_all
  have len: "length ?ks = ?n" by simp
  have "distinct (take ?c ?ks @ drop ?c ?ks)" using dk by simp
  then have disj: "set (take ?c ?ks) \<inter> set (drop ?c ?ks) = {}"
    by (simp only: distinct_append)
  have un: "set (take ?c ?ks) \<union> set (drop ?c ?ks) = set ?ks"
    by (metis append_take_drop_id set_append)
  have "fst ` set (packet_buffer ?r) = set ?ks - set (take ?c ?ks)"
    by (simp add: foldl_drop_old_keys)
  also have "\<dots> = set (drop ?c ?ks)" using disj un by blast
  finally have keys: "fst ` set (packet_buffer ?r) = set (drop ?c ?ks)" .
  have "distinct (map fst (packet_buffer ?r))"
    by (rule foldl_drop_old_distinct [OF dl])
  then have "length (packet_buffer ?r) = card (fst ` set (packet_buffer ?r))"
    using distinct_card [of "map fst (packet_buffer ?r)"] by simp
  also have "\<dots> = length (drop ?c ?ks)"
    unfolding keys using dk by (simp add: distinct_card)
  also have "\<dots> = max_buffer_size div 2"
    using over by (simp add: max_buffer_size_def)
  finally have size: "length (packet_buffer ?r) = max_buffer_size div 2" .
  have order: "gone < kept"
    if "gone \<in> fst ` set (packet_buffer ?l) - fst ` set (packet_buffer ?r)"
      "kept \<in> fst ` set (packet_buffer ?r)" for gone kept
  proof -
    from that(1) have g: "gone \<in> set (take ?c ?ks)"
      unfolding keys using un by auto
    from that(2) have k: "kept \<in> set (drop ?c ?ks)" unfolding keys .
    have "sorted (take ?c ?ks @ drop ?c ?ks)" using sk by simp
    then have "gone \<le> kept" using g k by (simp only: sorted_append)
    moreover have "gone \<noteq> kept" using g k disj by blast
    ultimately show ?thesis by simp
  qed
  from keys size order show ?thesis unfolding res by blast
qed

lemma process_buffered_packets_within_cap:
  assumes "distinct (map fst (packet_buffer st))"
  shows "length (packet_buffer (process_buffered_packets st)) \<le> max_buffer_size"
proof (cases "max_buffer_size < length (packet_buffer (process_buffered_loop st))")
  case True
  from eviction_drops_lowest_keys [OF assms True] show ?thesis by simp
next
  case False
  then show ?thesis by (simp add: process_buffered_packets_def Let_def)
qed

subsection \<open>The keys of the buffer stay distinct\<close>

lemma process_buffered_packets_distinct:
  assumes "distinct (map fst (packet_buffer st))"
  shows "distinct (map fst (packet_buffer (process_buffered_packets st)))"
  using foldl_drop_old_distinct [OF process_buffered_loop_distinct [OF assms]]
    process_buffered_loop_distinct [OF assms]
  by (simp add: process_buffered_packets_def Let_def)

lemma buffer_packet_distinct:
  assumes "distinct (map fst (packet_buffer st))"
  shows "distinct (map fst (packet_buffer (buffer_packet st seq p)))"
proof -
  have "distinct (map fst (packet_buffer (process_buffered_packets
          ((print e2 (print e1 (st\<lparr>packet_buffer := AList.update seq p (packet_buffer st)\<rparr>)))
             \<lparr>expected_seq := m\<rparr>))))" for e1 e2 m
    using assms by (intro process_buffered_packets_distinct) (simp add: distinct_update)
  with assms show ?thesis
    by (simp add: buffer_packet_def Let_def distinct_update split: list.split)
qed

lemma on_data_packet_distinct:
  assumes "distinct (map fst (packet_buffer st))"
  shows "distinct (map fst (packet_buffer (on_data_packet st wr seq p)))"
proof -
  let ?st = "st\<lparr>total_packets := total_packets st + 1\<rparr>"
  have "distinct (map fst (packet_buffer (process_buffered_packets
          (?st\<lparr>received_data := received_data ?st @ p,
               expected_seq := expected_seq ?st + 1\<rparr>))))"
    using assms by (intro process_buffered_packets_distinct) simp
  moreover have "distinct (map fst (packet_buffer (buffer_packet ?st seq p)))"
    using assms by (intro buffer_packet_distinct) simp
  ultimately show ?thesis using assms by (simp add: on_data_packet_def Let_def)
qed

lemma notification_handler_distinct:
  assumes "distinct (map fst (packet_buffer st))"
  shows "distinct (map fst (packet_buffer (notification_handler st wr data)))"
proof -
  have "distinct (map fst (packet_buffer (on_data_packet (print ev st) wr s p)))" for ev s p
    using assms by (intro on_data_packet_distinct) simp
  with on_data_packet_distinct [OF assms] assms show ?thesis
    by (simp add: notification_handler_def Let_def)
qed

lemma stall_recovery_distinct:
  assumes "distinct (map fst (packet_buffer st))"
  shows "distinct (map fst (packet_buffer (stall_recovery st wr)))"
proof -
  have "distinct (map fst (packet_buffer (process_buffered_packets
          ((print e2 (print e1 (send_credits (print e0 st) wr 32)))\<lparr>expected_seq := m\<rparr>))))"
    for e0 e1 e2 m
    using assms by (intro process_buffered_packets_distinct) simp
  with assms show ?thesis by (simp add: stall_recovery_def Let_def)
qed

lemma foldl_perform_distinct:
  "distinct (map fst (packet_buffer (foldl perform (reset_state st0) acts)))"
proof -
  have "distinct (map fst (packet_buffer (foldl perform st acts)))"
    if "distinct (map fst (packet_buffer st))" for st
    using that
  proof (induction acts arbitrary: st)
    case Nil
    then show ?case by simp
  next
    case (Cons a acts)
    have "distinct (map fst (packet_buffer (perform st a)))"
      using Cons.prems
      by (cases a) (simp_all add: notification_handler_distinct stall_recovery_distinct)
    from Cons.IH [OF this] show ?case by simp
  qed
  then show ?thesis by (simp add: reset_state_def)
qed

text \<open>
  So in every state a session reaches, a call of \<open>process_buffered_packets\<close> leaves at most
  \<open>max_buffer_size\<close> entries.
\<close>

lemma process_buffered_packets_within_cap_reachable:
  "length (packet_buffer (process_buffered_packets (foldl perform (reset_state st0) acts)))
     \<le> max_buffer_size"
  by (rule process_buffered_packets_within_cap [OF foldl_perform_distinct])

end
